theory Spec2Isabelle
  imports Complex_Main "HOL-Library.Sublist" "HOL-Library.Multiset"
begin

section \<open>Python values used by the command\<close>

text \<open>
  A Python \<^verbatim>\<open>str\<close> is a sequence of Unicode code points; it is modelled as a list of
  natural numbers, so that \<^verbatim>\<open>s[:50]\<close> is \<open>take 50 s\<close> and \<^verbatim>\<open>len\<close> counts code points.
  \<open>ascii\<close> turns an Isabelle string literal into such a sequence.
\<close>

type_synonym py_str = "nat list"

definition ascii :: "string \<Rightarrow> py_str" where
  "ascii s = map of_char s"

text \<open>
  \<^verbatim>\<open>str.isspace\<close> for one code point: the code points Python treats as whitespace
  (general category Zs, or bidirectional class WS, B or S).
\<close>

definition py_isspace :: "nat \<Rightarrow> bool" where
  "py_isspace c \<longleftrightarrow>
     (9 \<le> c \<and> c \<le> 13) \<or> (28 \<le> c \<and> c \<le> 32) \<or> c = 133 \<or> c = 160 \<or> c = 5760 \<or>
     (8192 \<le> c \<and> c \<le> 8202) \<or> c = 8232 \<or> c = 8233 \<or> c = 8239 \<or> c = 8287 \<or> c = 12288"

text \<open>\<^verbatim>\<open>s.strip()\<close>: whitespace removed from both ends.\<close>

definition py_strip :: "py_str \<Rightarrow> py_str" where
  "py_strip s = rev (dropWhile py_isspace (rev (dropWhile py_isspace s)))"

text \<open>\<^verbatim>\<open>s.endswith(t)\<close>.\<close>

definition endswith :: "py_str \<Rightarrow> py_str \<Rightarrow> bool" where
  "endswith s t \<longleftrightarrow> length t \<le> length s \<and> drop (length s - length t) s = t"

subsection \<open>\<^verbatim>\<open>os.path\<close> on POSIX\<close>

definition slash :: nat where
  "slash = 47"

text \<open>\<^verbatim>\<open>s.rstrip('/')\<close>.\<close>

definition rstrip_slash :: "py_str \<Rightarrow> py_str" where
  "rstrip_slash s = rev (dropWhile (\<lambda>c. c = slash) (rev s))"

text \<open>
  \<^verbatim>\<open>posixpath.split\<close> cuts a path after its last slash: \<open>path_head\<close> is everything up to
  and including that slash (\<^verbatim>\<open>p[:i]\<close> with \<^verbatim>\<open>i = p.rfind('/') + 1\<close>), \<open>basename\<close> the rest
  (\<^verbatim>\<open>p[i:]\<close>).
\<close>

definition basename :: "py_str \<Rightarrow> py_str" where
  "basename p = rev (takeWhile (\<lambda>c. c \<noteq> slash) (rev p))"

definition path_head :: "py_str \<Rightarrow> py_str" where
  "path_head p = rev (dropWhile (\<lambda>c. c \<noteq> slash) (rev p))"

text \<open>
  \<^verbatim>\<open>posixpath.dirname\<close>: the head, with its trailing slashes removed unless it consists of
  slashes only.
\<close>

definition dirname :: "py_str \<Rightarrow> py_str" where
  "dirname p =
     (let head = path_head p
      in if head \<noteq> [] \<and> \<not> (\<forall>c \<in> set head. c = slash) then rstrip_slash head else head)"

text \<open>
  \<^verbatim>\<open>posixpath.join(a, b)\<close> for two components: an absolute \<open>b\<close> replaces \<open>a\<close>; otherwise
  a slash is inserted unless \<open>a\<close> is empty or already ends with one.
\<close>

definition path_join :: "py_str \<Rightarrow> py_str \<Rightarrow> py_str" where
  "path_join a b =
     (if b \<noteq> [] \<and> hd b = slash then b
      else if a = [] \<or> last a = slash then a @ b
      else a @ [slash] @ b)"

subsection \<open>Exceptions and control flow\<close>

text \<open>
  The exceptions the command can meet: the two assertions of \<^verbatim>\<open>handle\<close>, the
  \<^verbatim>\<open>IndexError\<close> of \<^verbatim>\<open>request_times[0]\<close>, a catalog that cannot be read, and whatever
  the translator or \<^verbatim>\<open>po.save()\<close> raises inside the \<^verbatim>\<open>try\<close> block (any subclass of
  \<^verbatim>\<open>Exception\<close>, carried with its message).
\<close>

datatype py_exc =
    AssertionError py_str
  | IndexError
  | IOError py_str
  | Exception py_str

text \<open>
  How a block of statements ends: it falls through (\<open>Continue\<close>), executes
  \<^verbatim>\<open>return v\<close> (\<open>Return v\<close>), or raises.
\<close>

datatype 'a flow = Continue | Return 'a | Raise py_exc

section \<open>Catalogs, options, the outside world\<close>

text \<open>The fields of a \<^verbatim>\<open>polib.POEntry\<close> that the command reads or writes.\<close>

record entry =
  msgid :: py_str
  msgstr :: py_str
  flags :: "py_str list"

type_synonym catalog = "entry list"

definition fuzzy :: py_str where
  "fuzzy = ascii ''fuzzy''"

text \<open>
  Modelled from the spec: \<^verbatim>\<open>POEntry.translated()\<close> belongs to the catalog library, which is
  not part of the sources. The spec describes an entry as already fully translated when it
  is non-fuzzy and has a non-empty translation.
\<close>

definition translated :: "entry \<Rightarrow> bool" where
  "translated e \<longleftrightarrow> fuzzy \<notin> set (flags e) \<and> msgstr e \<noteq> []"

text \<open>
  The attributes stored by \<^verbatim>\<open>set_options\<close> from the command line (\<open>locales\<close> is the
  attribute \<^verbatim>\<open>self.locale\<close>, a list of locale codes).
\<close>

record options =
  locales :: "py_str list"
  skip_translated :: bool
  set_fuzzy :: bool
  source_language :: py_str
  limit_translations :: "int option"
  requests_per_10s :: int

text \<open>A directory tree as \<^verbatim>\<open>os.scandir\<close> lists it: names in listing order.\<close>

datatype fsnode = File py_str | Dir py_str "fsnode list"

text \<open>
  Everything outside the command. \<open>use_i18n\<close> and \<open>locale_paths\<close> are the two settings;
  \<open>listing\<close> gives the tree below a directory path (\<open>None\<close> when the path is not a
  readable directory). The remaining fields answer the external calls of the \<open>n\<close>-th
  translation attempt (attempts are numbered from 0 in the order they happen):
  \<open>translate_string n\<close> is the translator's answer (\<open>Inl\<close> an exception), and
  \<open>save_error n\<close> is the exception raised by \<^verbatim>\<open>po.save()\<close>, if any.

  Time is what the wall clock shows, and the command has no say in it. A float is modelled
  by the real number it stands for. \<open>time_time n c\<close> is the value \<^verbatim>\<open>time.time()\<close> returns
  at the start of \<^verbatim>\<open>wait_for_rate_limit\<close> in attempt \<open>n\<close>, when the previous reading was \<open>c\<close>;
  \<open>time_after_sleep n c d\<close> is the value it returns after \<^verbatim>\<open>time.sleep(d)\<close>, begun when the
  reading was \<open>c\<close>. Nothing is assumed about either: the clock may be set back, and a sleep
  may be seen to last less or more than asked. \<open>float_sub a b\<close> is the float the machine
  computes for \<^verbatim>\<open>a - b\<close>, which need not be the exact difference. Comparing two floats is
  exact, and so is the constant 10.
\<close>

record world =
  use_i18n :: bool
  locale_paths :: "py_str list"
  listing :: "py_str \<Rightarrow> fsnode list option"
  time_time :: "nat \<Rightarrow> real \<Rightarrow> real"
  time_after_sleep :: "nat \<Rightarrow> real \<Rightarrow> real \<Rightarrow> real"
  float_sub :: "real \<Rightarrow> real \<Rightarrow> real"
  translate_string :: "nat \<Rightarrow> py_str \<Rightarrow> py_str \<Rightarrow> py_str \<Rightarrow> py_exc + py_str"
  save_error :: "nat \<Rightarrow> py_exc option"

text \<open>
  What changes during a run: the two counters of the command (\<open>translated_count\<close>,
  \<open>request_times\<close>), the last reading of the clock, the number of translation attempts made
  so far, and the catalogs on disk, by path.
\<close>

record state =
  translated_count :: int
  request_times :: "real list"
  clock :: real
  attempts :: nat
  disk :: "py_str \<rightharpoonup> catalog"

text \<open>
  What a run does that can be observed, in order: the log records, and the external calls
  (\<open>Sleep\<close>, \<open>Acquire t\<close> for \<^verbatim>\<open>request_times.append(t)\<close>, \<open>Load\<close> for \<^verbatim>\<open>polib.pofile\<close>,
  \<open>Translate_call\<close> for \<^verbatim>\<open>translate_string\<close>). A call of \<^verbatim>\<open>po.save()\<close> is \<open>Save\<close> with the
  path and the catalog written when it succeeds, and \<open>Save_failed\<close> with the path when it
  raises and leaves the file as it was.
\<close>

datatype event =
    Info_limit_set int
  | Info_rate_limit int
  | Info_limit_stopping int
  | Info_skipping_locale py_str
  | Info_filling_up py_str
  | Info_limit_reached int
  | Info_rate_wait real
  | Info_translated int py_str py_str
  | Error_translating py_str py_exc
  | Sleep real
  | Acquire real
  | Load py_str
  | Translate_call py_str py_str py_str
  | Save py_str catalog
  | Save_failed py_str

text \<open>Every operation returns the events it produced, the new state and how it ended.\<close>

type_synonym 'a outcome = "event list \<times> state \<times> 'a flow"

definition after :: "event list \<Rightarrow> 'a outcome \<Rightarrow> 'a outcome" where
  "after evs r = (case r of (evs', s, f) \<Rightarrow> (evs @ evs', s, f))"

section \<open>The rate limiter\<close>

text \<open>
  \<^verbatim>\<open>[t for t in self.request_times if current_time - t < 10]\<close>, with the subtraction of
  the machine.
\<close>

definition prune :: "world \<Rightarrow> real \<Rightarrow> real list \<Rightarrow> real list" where
  "prune w current_time ts = filter (\<lambda>t. float_sub w current_time t < 10) ts"

text \<open>
  \<^verbatim>\<open>wait_for_rate_limit\<close>: read the clock, prune, and when the list is still as long as the
  limit, compute \<^verbatim>\<open>10 - (current_time - self.request_times[0])\<close> (an \<^verbatim>\<open>IndexError\<close> when the
  list is empty); if that is positive, log, sleep, read the clock again and prune again.
  Then the last reading is appended, without a further test.
\<close>

definition wait_for_rate_limit :: "options \<Rightarrow> world \<Rightarrow> state \<Rightarrow> unit outcome" where
  "wait_for_rate_limit opts w s =
     (let n = attempts s;
          current_time = time_time w n (clock s);
          ts = prune w current_time (request_times s);
          s1 = s\<lparr>clock := current_time, request_times := ts, attempts := Suc n\<rparr>
      in if int (length ts) \<ge> requests_per_10s opts then
           (case ts of
              [] \<Rightarrow> ([], s1, Raise IndexError)
            | t0 # _ \<Rightarrow>
                let sleep_time = float_sub w 10 (float_sub w current_time t0)
                in if sleep_time > 0 then
                     let current_time' = time_after_sleep w n current_time sleep_time;
                         ts' = prune w current_time' ts
                     in ([Info_rate_wait sleep_time, Sleep sleep_time, Acquire current_time'],
                         s1\<lparr>clock := current_time', request_times := ts' @ [current_time']\<rparr>,
                         Continue)
                   else ([Acquire current_time],
                         s1\<lparr>request_times := ts @ [current_time]\<rparr>, Continue))
         else ([Acquire current_time], s1\<lparr>request_times := ts @ [current_time]\<rparr>, Continue))"

section \<open>The command\<close>

text \<open>
  \<^verbatim>\<open>self.limit_translations and self.translated_count >= self.limit_translations\<close>: the
  limit counts only when it is set and not zero. The result is the limit when the test
  succeeds.
\<close>

definition check_limit :: "options \<Rightarrow> state \<Rightarrow> int option" where
  "check_limit opts s =
     (case limit_translations opts of
        None \<Rightarrow> None
      | Some l \<Rightarrow> if l \<noteq> 0 \<and> translated_count s \<ge> l then Some l else None)"

text \<open>
  The \<^verbatim>\<open>try\<close> block of \<^verbatim>\<open>translate_file\<close> for the entry \<open>e\<close>, in the \<open>n\<close>-th attempt of
  the run. \<open>seen\<close> holds the entries of the catalog before \<open>e\<close> and \<open>es\<close> those after it, as
  they are now in memory, so that \<open>seen @ e' # es\<close> is the catalog \<^verbatim>\<open>po.save()\<close> writes.
  \<open>translate_string\<close> answers for \<^verbatim>\<open>get_translator()\<close> and the call of the translator
  together. The result is the events, the entry as it is afterwards, and the new state; the
  \<^verbatim>\<open>except\<close> clause catches what the translator or the save raises.
\<close>

definition try_translate ::
  "options \<Rightarrow> world \<Rightarrow> py_str \<Rightarrow> py_str \<Rightarrow> entry list \<Rightarrow> entry \<Rightarrow> entry list \<Rightarrow> nat \<Rightarrow> state
     \<Rightarrow> event list \<times> entry \<times> state"
where
  "try_translate opts w target_language po_file_path seen e es n s =
     (let call = Translate_call (msgid e) (source_language opts) target_language
      in case translate_string w n (msgid e) (source_language opts) target_language of
           Inl x \<Rightarrow> ([call, Error_translating (take 50 (msgid e)) x], e, s)
         | Inr t \<Rightarrow>
             let e' = e\<lparr>msgstr := t,
                        flags := (if set_fuzzy opts then flags e @ [fuzzy] else flags e)\<rparr>;
                 s' = s\<lparr>translated_count := translated_count s + 1\<rparr>
             in (case save_error w n of
                   Some x \<Rightarrow>
                     ([call, Save_failed po_file_path,
                       Error_translating (take 50 (msgid e')) x],
                      e', s')
                 | None \<Rightarrow>
                     ([call, Save po_file_path (seen @ e' # es),
                       Info_translated (translated_count s') (take 50 (msgid e'))
                         (take 50 (msgstr e'))],
                      e', s'\<lparr>disk := (disk s')(po_file_path \<mapsto> seen @ e' # es)\<rparr>)))"

text \<open>The loop of \<^verbatim>\<open>translate_file\<close> over the entries of the catalog.\<close>

fun translate_entries ::
  "options \<Rightarrow> world \<Rightarrow> py_str \<Rightarrow> py_str \<Rightarrow> entry list \<Rightarrow> entry list \<Rightarrow> state \<Rightarrow> bool outcome"
where
  "translate_entries opts w target_language po_file_path seen [] s = ([], s, Return True)"
| "translate_entries opts w target_language po_file_path seen (e # es) s =
     (case check_limit opts s of
        Some l \<Rightarrow> ([Info_limit_reached l], s, Return False)
      | None \<Rightarrow>
          if skip_translated opts \<and> translated e then
            translate_entries opts w target_language po_file_path (seen @ [e]) es s
          else if py_strip (msgid e) = [] then
            translate_entries opts w target_language po_file_path (seen @ [e]) es s
          else
            (case wait_for_rate_limit opts w s of
               (evs, s1, Raise x) \<Rightarrow> (evs, s1, Raise x)
             | (evs, s1, _) \<Rightarrow>
                 (case try_translate opts w target_language po_file_path seen e es
                         (attempts s) s1 of
                    (evs', e', s2) \<Rightarrow>
                      after (evs @ evs')
                        (translate_entries opts w target_language po_file_path
                           (seen @ [e']) es s2))))"

text \<open>A catalog that is not on the disk, or cannot be parsed, makes \<^verbatim>\<open>polib.pofile\<close> raise.\<close>

definition translate_file ::
  "options \<Rightarrow> world \<Rightarrow> py_str \<Rightarrow> py_str \<Rightarrow> py_str \<Rightarrow> state \<Rightarrow> bool outcome"
where
  "translate_file opts w root_dir file_name target_language s =
     (let po_file_path = path_join root_dir file_name
      in case disk s po_file_path of
           None \<Rightarrow> ([Info_filling_up target_language, Load po_file_path], s,
                     Raise (IOError po_file_path))
         | Some po \<Rightarrow>
             after [Info_filling_up target_language, Load po_file_path]
               (translate_entries opts w target_language po_file_path [] po s))"

text \<open>The innermost loop of \<^verbatim>\<open>handle\<close>: the files of one directory of the walk.\<close>

fun handle_files :: "options \<Rightarrow> world \<Rightarrow> py_str \<Rightarrow> py_str list \<Rightarrow> state \<Rightarrow> unit outcome" where
  "handle_files opts w root_dir [] s = ([], s, Continue)"
| "handle_files opts w root_dir (file # files) s =
     (case check_limit opts s of
        Some l \<Rightarrow> ([Info_limit_stopping l], s, Return ())
      | None \<Rightarrow>
          if \<not> endswith file (ascii ''.po'') then handle_files opts w root_dir files s
          else
            let target_language = basename (dirname root_dir)
            in if locales opts \<noteq> [] \<and> target_language \<notin> set (locales opts) then
                 after [Info_skipping_locale target_language] (handle_files opts w root_dir files s)
               else
                 (case translate_file opts w root_dir file target_language s of
                    (evs, s1, Raise x) \<Rightarrow> (evs, s1, Raise x)
                  | (evs, s1, Return True) \<Rightarrow> after evs (handle_files opts w root_dir files s1)
                  | (evs, s1, _) \<Rightarrow> (evs, s1, Return ())))"

text \<open>
  \<^verbatim>\<open>os.walk(top)\<close>, top-down: the directory itself with the names of its subdirectories and
  of its other files, then each subdirectory in turn under the joined path.
\<close>

fun dir_names :: "fsnode list \<Rightarrow> py_str list" where
  "dir_names [] = []"
| "dir_names (Dir n _ # ns) = n # dir_names ns"
| "dir_names (File _ # ns) = dir_names ns"

fun file_names :: "fsnode list \<Rightarrow> py_str list" where
  "file_names [] = []"
| "file_names (File n # ns) = n # file_names ns"
| "file_names (Dir _ _ # ns) = file_names ns"

fun os_walk :: "py_str \<Rightarrow> fsnode list \<Rightarrow> (py_str \<times> py_str list \<times> py_str list) list"
  and walk_subdirs :: "py_str \<Rightarrow> fsnode list \<Rightarrow> (py_str \<times> py_str list \<times> py_str list) list"
where
  "os_walk top_dir nodes = (top_dir, dir_names nodes, file_names nodes) # walk_subdirs top_dir nodes"
| "walk_subdirs top_dir [] = []"
| "walk_subdirs top_dir (File _ # ns) = walk_subdirs top_dir ns"
| "walk_subdirs top_dir (Dir n children # ns) =
     os_walk (path_join top_dir n) children @ walk_subdirs top_dir ns"

definition walk :: "world \<Rightarrow> py_str \<Rightarrow> (py_str \<times> py_str list \<times> py_str list) list" where
  "walk w directory =
     (case listing w directory of None \<Rightarrow> [] | Some nodes \<Rightarrow> os_walk directory nodes)"

fun handle_walk ::
  "options \<Rightarrow> world \<Rightarrow> (py_str \<times> py_str list \<times> py_str list) list \<Rightarrow> state \<Rightarrow> unit outcome"
where
  "handle_walk opts w [] s = ([], s, Continue)"
| "handle_walk opts w ((root_dir, dirs, files) # rest) s =
     (case handle_files opts w root_dir files s of
        (evs, s1, Continue) \<Rightarrow> after evs (handle_walk opts w rest s1)
      | r \<Rightarrow> r)"

text \<open>The outer loop of \<^verbatim>\<open>handle\<close>, over \<^verbatim>\<open>settings.LOCALE_PATHS\<close>.\<close>

fun handle_dirs :: "options \<Rightarrow> world \<Rightarrow> py_str list \<Rightarrow> state \<Rightarrow> unit outcome" where
  "handle_dirs opts w [] s = ([], s, Continue)"
| "handle_dirs opts w (directory # ds) s =
     (case check_limit opts s of
        Some l \<Rightarrow> ([Info_limit_stopping l], s, Return ())
      | None \<Rightarrow>
          (case handle_walk opts w (walk w directory) s of
             (evs, s1, Continue) \<Rightarrow> after evs (handle_dirs opts w ds s1)
           | r \<Rightarrow> r))"

text \<open>\<^verbatim>\<open>set_options\<close> resets the two counters.\<close>

definition set_options :: "state \<Rightarrow> state" where
  "set_options s = s\<lparr>translated_count := 0, request_times := []\<rparr>"

definition handle :: "options \<Rightarrow> world \<Rightarrow> state \<Rightarrow> unit outcome" where
  "handle opts w s0 =
     (let s = set_options s0
      in if \<not> use_i18n w then
           ([], s, Raise (AssertionError (ascii ''i18n framework is disabled'')))
         else if locale_paths w = [] then
           ([], s, Raise (AssertionError (ascii ''locale paths is not configured properly'')))
         else
           after ((case limit_translations opts of
                     None \<Rightarrow> []
                   | Some l \<Rightarrow> if l \<noteq> 0 then [Info_limit_set l] else [])
                  @ [Info_rate_limit (requests_per_10s opts)])
             (case handle_dirs opts w (locale_paths w) s of
                (evs, s1, Continue) \<Rightarrow> (evs, s1, Return ())
              | r \<Rightarrow> r))"

section \<open>Observations on runs\<close>

text \<open>The timestamps recorded by a run, in order.\<close>

fun acquired :: "event list \<Rightarrow> real list" where
  "acquired [] = []"
| "acquired (Acquire t # evs) = t # acquired evs"
| "acquired (_ # evs) = acquired evs"

text \<open>
  The trailing ten-second window that ends at \<open>T\<close>: the timestamps not after \<open>T\<close> that are
  less than ten seconds old at \<open>T\<close>, the age being measured as the command measures it.
\<close>

definition in_window :: "world \<Rightarrow> real \<Rightarrow> real \<Rightarrow> bool" where
  "in_window w T t \<longleftrightarrow> float_sub w T t < 10 \<and> t \<le> T"




text \<open>\<open>n\<close> successive calls of \<^verbatim>\<open>wait_for_rate_limit\<close>, stopping if one raises.\<close>

fun acquire_calls :: "options \<Rightarrow> world \<Rightarrow> nat \<Rightarrow> state \<Rightarrow> unit outcome" where
  "acquire_calls opts w 0 s = ([], s, Continue)"
| "acquire_calls opts w (Suc n) s =
     (case wait_for_rate_limit opts w s of
        (evs, s1, Continue) \<Rightarrow> after evs (acquire_calls opts w n s1)
      | r \<Rightarrow> r)"



text \<open>The texts handed to the translator by a run, in order.\<close>

fun attempted :: "event list \<Rightarrow> py_str list" where
  "attempted [] = []"
| "attempted (Translate_call text _ _ # evs) = text # attempted evs"
| "attempted (_ # evs) = attempted evs"

text \<open>
  The selection rule in the words of the specification: an entry is skipped when
  \<open>skip_translated\<close> is set and the entry is already translated, and when its source text is
  empty after trimming; every other entry is selected.
\<close>

definition selected :: "options \<Rightarrow> entry \<Rightarrow> bool" where
  "selected opts e \<longleftrightarrow> \<not> (skip_translated opts \<and> translated e) \<and> py_strip (msgid e) \<noteq> []"

text \<open>
  The cap leaves room for \<open>k\<close> more translations: no cap is set, or it is zero (which the
  command treats as no cap), or the counter plus \<open>k\<close> stays within it.
\<close>

definition cap_allows :: "options \<Rightarrow> state \<Rightarrow> nat \<Rightarrow> bool" where
  "cap_allows opts s k \<longleftrightarrow>
     (case limit_translations opts of
        None \<Rightarrow> True
      | Some l \<Rightarrow> l = 0 \<or> translated_count s + int k \<le> l)"


text \<open>The test \<^verbatim>\<open>file.endswith('.po')\<close>.\<close>

definition is_po :: "py_str \<Rightarrow> bool" where
  "is_po file \<longleftrightarrow> endswith file (ascii ''.po'')"

text \<open>
  Every recording of a timestamp is followed at once by a call of the translator, and the
  translator is never called otherwise.
\<close>

definition is_acquire :: "event \<Rightarrow> bool" where
  "is_acquire ev = (case ev of Acquire _ \<Rightarrow> True | _ \<Rightarrow> False)"

definition is_call :: "event \<Rightarrow> bool" where
  "is_call ev = (case ev of Translate_call _ _ _ \<Rightarrow> True | _ \<Rightarrow> False)"

fun paired :: "event list \<Rightarrow> bool" where
  "paired [] = True"
| "paired (ev # evs) =
     (if is_acquire ev then
        (case evs of [] \<Rightarrow> False | ev' # evs' \<Rightarrow> is_call ev' \<and> paired evs')
      else \<not> is_call ev \<and> paired evs)"

text \<open>Two states with the same rate-limiter data and the same clock.\<close>

definition same_limiter :: "state \<Rightarrow> state \<Rightarrow> bool" where
  "same_limiter s t \<longleftrightarrow>
     request_times s = request_times t \<and> clock s = clock t \<and> attempts s = attempts t"

text \<open>The target languages handed to the translator by a run, in order.\<close>

fun targets :: "event list \<Rightarrow> py_str list" where
  "targets [] = []"
| "targets (Translate_call _ _ tgt # evs) = tgt # targets evs"
| "targets (_ # evs) = targets evs"

text \<open>A name of a file or directory: not empty, without a slash.\<close>

definition valid_name :: "py_str \<Rightarrow> bool" where
  "valid_name n \<longleftrightarrow> n \<noteq> [] \<and> slash \<notin> set n"

text \<open>
  The names a path consists of: the non-empty pieces between its slashes. The directory two
  levels above a file is the third name from the end of its path.
\<close>

fun pieces :: "py_str \<Rightarrow> py_str \<Rightarrow> py_str list" where
  "pieces cur [] = [cur]"
| "pieces cur (c # cs) = (if c = slash then cur # pieces [] cs else pieces (cur @ [c]) cs)"

definition components :: "py_str \<Rightarrow> py_str list" where
  "components p = filter (\<lambda>x. x \<noteq> []) (pieces [] p)"

definition grandparent_name :: "py_str \<Rightarrow> py_str option" where
  "grandparent_name p =
     (case rev (components p) of
        file # parent # grandparent # _ \<Rightarrow> Some grandparent
      | _ \<Rightarrow> None)"

text \<open>A tree in which every file and directory has a proper name.\<close>

fun valid_tree :: "fsnode \<Rightarrow> bool" where
  "valid_tree (File n) = valid_name n"
| "valid_tree (Dir n children) = (valid_name n \<and> (\<forall>c \<in> set children. valid_tree c))"

text \<open>
  A directory path that ends with two names, \<^verbatim>\<open>.../<loc>/<sub>\<close>, as the directories of the
  conventional layout \<^verbatim>\<open><root>/<locale>/LC_MESSAGES\<close> do.
\<close>

definition layout :: "py_str \<Rightarrow> bool" where
  "layout r \<longleftrightarrow>
     (\<exists>pre loc sub. r = pre @ loc @ [slash] @ sub \<and> valid_name loc \<and> valid_name sub \<and>
        (pre = [] \<or> last pre = slash))"

text \<open>
  The external actions among the events (everything but the log records), the calls of
  \<^verbatim>\<open>po.save()\<close> among them, successful or not, and their number.
\<close>

definition is_save :: "event \<Rightarrow> bool" where
  "is_save ev = (case ev of Save _ _ \<Rightarrow> True | Save_failed _ \<Rightarrow> True | _ \<Rightarrow> False)"

definition is_effect :: "event \<Rightarrow> bool" where
  "is_effect ev =
     (case ev of
        Sleep _ \<Rightarrow> True | Acquire _ \<Rightarrow> True | Load _ \<Rightarrow> True
      | Translate_call _ _ _ \<Rightarrow> True | Save _ _ \<Rightarrow> True | Save_failed _ \<Rightarrow> True
      | _ \<Rightarrow> False)"

definition effects :: "event list \<Rightarrow> event list" where
  "effects evs = filter is_effect evs"

definition saves :: "event list \<Rightarrow> nat" where
  "saves evs = length (filter is_save evs)"

text \<open>
  The successful saves among the events and the reports of a translation in the log, with
  their numbers, and the catalogs on disk after the successful saves of a run, in order.
\<close>

definition is_stored :: "event \<Rightarrow> bool" where
  "is_stored ev = (case ev of Save _ _ \<Rightarrow> True | _ \<Rightarrow> False)"

definition stored :: "event list \<Rightarrow> nat" where
  "stored evs = length (filter is_stored evs)"

definition is_report :: "event \<Rightarrow> bool" where
  "is_report ev = (case ev of Info_translated _ _ _ \<Rightarrow> True | _ \<Rightarrow> False)"

definition reported :: "event list \<Rightarrow> nat" where
  "reported evs = length (filter is_report evs)"

definition write_event :: "event \<Rightarrow> (py_str \<rightharpoonup> catalog) \<Rightarrow> (py_str \<rightharpoonup> catalog)" where
  "write_event ev d = (case ev of Save path po \<Rightarrow> d(path \<mapsto> po) | _ \<Rightarrow> d)"

fun written :: "event list \<Rightarrow> (py_str \<rightharpoonup> catalog) \<Rightarrow> (py_str \<rightharpoonup> catalog)" where
  "written [] d = d"
| "written (ev # evs) d = written evs (write_event ev d)"

text \<open>
  What a part of a run under a cap \<open>L\<close> does to the counter, from state \<open>s\<close> to state \<open>s'\<close>:
  the counter grows by the number of calls of \<^verbatim>\<open>po.save()\<close>; nothing external happens once
  the counter has reached the cap; and starting below the cap the counter does not pass it,
  and if it reaches it, the last external action is the save of the translation that
  reached it.
\<close>

definition counted_run :: "int \<Rightarrow> state \<Rightarrow> event list \<Rightarrow> state \<Rightarrow> bool" where
  "counted_run L s evs s' \<longleftrightarrow>
     translated_count s' = translated_count s + int (saves evs) \<and>
     (L \<le> translated_count s \<longrightarrow> effects evs = []) \<and>
     (translated_count s < L \<longrightarrow>
        translated_count s' \<le> L \<and>
        (translated_count s' = L \<longrightarrow> effects evs \<noteq> [] \<and> is_save (last (effects evs))))"

text \<open>
  What a part of a run does to the disk: the catalogs on disk afterwards are those before,
  overwritten by the successful saves in their order; every successful save is reported in
  the log as a translation, and nothing else is; and where \<^verbatim>\<open>po.save()\<close> never raises,
  every save is successful.
\<close>

definition stored_run :: "world \<Rightarrow> state \<Rightarrow> event list \<Rightarrow> state \<Rightarrow> bool" where
  "stored_run w s evs s' \<longleftrightarrow>
     disk s' = written evs (disk s) \<and> reported evs = stored evs \<and>
     ((\<forall>n. save_error w n = None) \<longrightarrow> stored evs = saves evs)"

definition capped_run :: "int \<Rightarrow> world \<Rightarrow> state \<Rightarrow> event list \<Rightarrow> state \<Rightarrow> bool" where
  "capped_run L w s evs s' \<longleftrightarrow> counted_run L s evs s' \<and> stored_run w s evs s'"

text \<open>The same options without a cap.\<close>

definition uncapped :: "options \<Rightarrow> options" where
  "uncapped opts = opts\<lparr>limit_translations := None\<rparr>"

text \<open>
  An outcome under the cap \<open>L\<close> against the outcome without cap: its external actions are
  an initial part of those without cap, and the two outcomes are the same unless the
  counter has reached the cap.
\<close>

definition cut_of :: "int \<Rightarrow> 'a outcome \<Rightarrow> 'a outcome \<Rightarrow> bool" where
  "cut_of L rL rU \<longleftrightarrow>
     prefix (effects (fst rL)) (effects (fst rU)) \<and>
     (translated_count (fst (snd rL)) < L \<longrightarrow> rL = rU)"

subsection \<open>A small installation used for concrete runs\<close>

text \<open>
  One catalog root \<^verbatim>\<open>locale\<close> holding \<^verbatim>\<open>fr/LC_MESSAGES/django.po\<close>; a clock that advances
  one second between attempts and by the time asked during a sleep, with exact differences;
  a translator that fails on the second attempt and otherwise answers with the target
  language followed by the text; saves that succeed.
\<close>

definition demo_world :: world where
  "demo_world =
     \<lparr>use_i18n = True,
      locale_paths = [ascii ''locale''],
      listing = (\<lambda>d. if d = ascii ''locale''
                      then Some [Dir (ascii ''fr'')
                                   [Dir (ascii ''LC_MESSAGES'') [File (ascii ''django.po'')]]]
                      else None),
      time_time = (\<lambda>n c. c + 1),
      time_after_sleep = (\<lambda>n c d. c + d),
      float_sub = (\<lambda>a b. a - b),
      translate_string = (\<lambda>n text src tgt. if n = 1 then Inl (Exception (ascii ''timeout''))
                                               else Inr (tgt @ text)),
      save_error = (\<lambda>_. None)\<rparr>"

definition demo_options :: options where
  "demo_options =
     \<lparr>locales = [], skip_translated = True, set_fuzzy = True, source_language = ascii ''en'',
      limit_translations = None, requests_per_10s = 2\<rparr>"

definition demo_state :: state where
  "demo_state =
     \<lparr>translated_count = 0, request_times = [], clock = 0, attempts = 0, disk = Map.empty\<rparr>"

text \<open>
  The catalog of the installation: two untranslated entries, a blank one, a translated one
  and a fuzzy one.
\<close>

definition demo_catalog :: catalog where
  "demo_catalog =
     [\<lparr>msgid = ascii ''Hello'', msgstr = [], flags = []\<rparr>,
      \<lparr>msgid = ascii ''  '', msgstr = [], flags = []\<rparr>,
      \<lparr>msgid = ascii ''Bye'', msgstr = [], flags = []\<rparr>,
      \<lparr>msgid = ascii ''Yes'', msgstr = ascii ''Oui'', flags = []\<rparr>,
      \<lparr>msgid = ascii ''No'', msgstr = ascii ''Non'', flags = [fuzzy]\<rparr>]"

definition demo_path :: py_str where
  "demo_path = ascii ''locale/fr/LC_MESSAGES/django.po''"

definition demo_disk :: state where
  "demo_disk = demo_state\<lparr>disk := [demo_path \<mapsto> demo_catalog]\<rparr>"

definition demo_hello :: entry where
  "demo_hello = \<lparr>msgid = ascii ''Hello'', msgstr = [], flags = []\<rparr>"

definition demo_bye :: entry where
  "demo_bye = \<lparr>msgid = ascii ''Bye'', msgstr = [], flags = []\<rparr>"

text \<open>
  A second installation: the catalog root is written with a trailing slash and holds a
  catalog directly.
\<close>

definition flat_world :: world where
  "flat_world =
     demo_world\<lparr>locale_paths := [ascii ''a/b/''],
                listing := (\<lambda>d. if d = ascii ''a/b/'' then Some [File (ascii ''x.po'')]
                                else None)\<rparr>"

definition flat_state :: state where
  "flat_state = demo_state\<lparr>disk := [ascii ''a/b/x.po'' \<mapsto> [demo_hello]]\<rparr>"


definition readonly_world :: world where
  "readonly_world =
     demo_world\<lparr>translate_string := (\<lambda>n text src tgt. Inr (tgt @ text)),
                save_error := (\<lambda>_. Some (IOError demo_path))\<rparr>"


section \<open>The rate limiter keeps its bound\<close>

lemma acquired_append: "acquired (xs @ ys) = acquired xs @ acquired ys"
  by (induction xs rule: acquired.induct) auto



subsection \<open>The length of the list, whatever the clock does between calls\<close>



subsection \<open>All the timestamps of a run, with a clock that is not set back\<close>








subsection \<open>Exact arithmetic\<close>

text \<open>
  With exact differences the window that ends at \<open>T\<close> is the interval from \<open>T - 10\<close>,
  excluded, to \<open>T\<close>; the subtraction is monotone; and a sleep that is seen to last at least
  as long as asked does its work.
\<close>

lemma in_window_exact:
  "float_sub w = (\<lambda>a b. a - b) \<Longrightarrow> in_window w T t \<longleftrightarrow> T - 10 < t \<and> t \<le> T"
  by (auto simp: in_window_def)



subsection \<open>The claim\<close>




text \<open>
  The third of three calls, one second apart, with a limit of two per window: the limiter
  sleeps until the first request is ten seconds old.
\<close>

lemma demo_third_call_sleeps:
  "acquired (fst (acquire_calls demo_options demo_world 3 demo_state)) = [1, 2, 11]"
  by (simp add: numeral_3_eq_3 wait_for_rate_limit_def prune_def after_def
      demo_options_def demo_world_def demo_state_def)

section \<open>When the rate limiter raises\<close>




section \<open>Which entries are sent to the translator\<close>

lemma attempted_append: "attempted (xs @ ys) = attempted xs @ attempted ys"
  by (induction xs rule: attempted.induct) auto

lemma wait_frame:
  "wait_for_rate_limit opts w s = (evs, s1, f) \<Longrightarrow>
     translated_count s1 = translated_count s \<and> disk s1 = disk s \<and>
     attempts s1 = Suc (attempts s) \<and> attempted evs = []"
  by (auto simp: wait_for_rate_limit_def Let_def split: if_splits list.splits)

lemma wait_no_raise:
  "1 \<le> requests_per_10s opts \<Longrightarrow> wait_for_rate_limit opts w s = (evs, s1, f) \<Longrightarrow> f = Continue"
  by (auto simp: wait_for_rate_limit_def Let_def split: if_splits list.splits)

lemma try_translate_attempted:
  "try_translate opts w tgt path seen e es n s = (evs, e', s') \<Longrightarrow>
     attempted evs = [msgid e] \<and> translated_count s \<le> translated_count s' \<and>
     translated_count s' \<le> translated_count s + 1"
  by (auto simp: try_translate_def Let_def split: sum.splits option.splits)

lemma dropWhile_all_iff: "(\<forall>x \<in> set (dropWhile P xs). P x) \<longleftrightarrow> dropWhile P xs = []"
proof
  assume a: "\<forall>x \<in> set (dropWhile P xs). P x"
  show "dropWhile P xs = []"
  proof (rule ccontr)
    assume n: "dropWhile P xs \<noteq> []"
    then have "\<not> P (hd (dropWhile P xs))" by (rule hd_dropWhile)
    moreover have "hd (dropWhile P xs) \<in> set (dropWhile P xs)" using n by simp
    ultimately show False using a by blast
  qed
qed (auto dest: set_dropWhileD)

lemma py_strip_empty_iff: "py_strip s = [] \<longleftrightarrow> (\<forall>c \<in> set s. py_isspace c)"
  by (simp add: py_strip_def dropWhile_eq_Nil_conv dropWhile_all_iff)

lemma translate_entries_hit:
  "check_limit opts s = Some l \<Longrightarrow>
   translate_entries opts w tgt path seen (e # es) s = ([Info_limit_reached l], s, Return False)"
  by simp

lemma translate_entries_skip:
  "check_limit opts s = None \<Longrightarrow> \<not> selected opts e \<Longrightarrow>
   translate_entries opts w tgt path seen (e # es) s =
     translate_entries opts w tgt path (seen @ [e]) es s"
  by (auto simp: selected_def)

lemma translate_entries_attempt:
  "check_limit opts s = None \<Longrightarrow> selected opts e \<Longrightarrow>
   wait_for_rate_limit opts w s = (evs, s1, f) \<Longrightarrow>
   try_translate opts w tgt path seen e es (attempts s) s1 = (evs', e', s2) \<Longrightarrow>
   translate_entries opts w tgt path seen (e # es) s =
     (case f of
        Raise x \<Rightarrow> (evs, s1, Raise x)
      | _ \<Rightarrow> after (evs @ evs') (translate_entries opts w tgt path (seen @ [e']) es s2))"
  by (cases f) (auto simp: selected_def)

declare translate_entries.simps(2) [simp del]

lemma attempted_prefix:
  "prefix (attempted (fst (translate_entries opts w tgt path seen es s)))
     (map msgid (filter (selected opts) es))"
proof (induction es arbitrary: seen s)
  case Nil
  then show ?case by simp
next
  case (Cons e es)
  show ?case
  proof (cases "check_limit opts s")
    case (Some l)
    then show ?thesis by (simp add: translate_entries_hit)
  next
    case None
    show ?thesis
    proof (cases "selected opts e")
      case False
      then show ?thesis using None Cons.IH[of "seen @ [e]" s]
        by (simp add: translate_entries_skip)
    next
      case True
      obtain evs s1 f where w: "wait_for_rate_limit opts w s = (evs, s1, f)"
        by (metis prod_cases3)
      obtain evs' e' s2 where t: "try_translate opts w tgt path seen e es (attempts s) s1 = (evs', e', s2)"
        by (metis prod_cases3)
      show ?thesis
        using True wait_frame[OF w] try_translate_attempted[OF t]
          Cons.IH[of "seen @ [e']" s2]
        by (cases f)
          (auto simp: translate_entries_attempt[OF None True w t] after_def attempted_append
            split: prod.splits)
    qed
  qed
qed

lemma attempted_all:
  assumes rp: "1 \<le> requests_per_10s opts"
  shows "cap_allows opts s (length (filter (selected opts) es)) \<Longrightarrow>
         attempted (fst (translate_entries opts w tgt path seen es s)) =
           map msgid (filter (selected opts) es)"
proof (induction es arbitrary: seen s)
  case Nil
  then show ?case by simp
next
  case (Cons e es)
  show ?case
  proof (cases "selected opts e")
    case False
    have "filter (selected opts) es = []" if "check_limit opts s = Some l" for l
    proof -
      have "l \<le> translated_count s"
        and "translated_count s + int (length (filter (selected opts) es)) \<le> l"
        using that Cons.prems False
        by (auto simp: cap_allows_def check_limit_def split: option.splits if_splits)
      then have "int (length (filter (selected opts) es)) \<le> 0" by linarith
      then show ?thesis by simp
    qed
    then show ?thesis using False Cons.IH[of s "seen @ [e]"] Cons.prems
      by (cases "check_limit opts s") (auto simp: translate_entries_skip translate_entries_hit)
  next
    case True
    then have None: "check_limit opts s = None"
      using Cons.prems by (auto simp: cap_allows_def check_limit_def split: option.splits)
    obtain evs s1 f where w: "wait_for_rate_limit opts w s = (evs, s1, f)"
      by (metis prod_cases3)
    obtain evs' e' s2 where t: "try_translate opts w tgt path seen e es (attempts s) s1 = (evs', e', s2)"
      by (metis prod_cases3)
    have f: "f = Continue" using wait_no_raise[OF rp w] .
    have "cap_allows opts s2 (length (filter (selected opts) es))"
      using Cons.prems True wait_frame[OF w] try_translate_attempted[OF t]
      by (auto simp: cap_allows_def split: option.splits)
    from Cons.IH[OF this, of "seen @ [e']"] show ?thesis
      using True f wait_frame[OF w] try_translate_attempted[OF t]
      by (auto simp: translate_entries_attempt[OF None True w t] after_def attempted_append
          split: prod.splits)
  qed
qed


lemma translate_file_loaded:
  "disk s (path_join root_dir file_name) = Some po \<Longrightarrow>
   attempted (fst (translate_file opts w root_dir file_name tgt s)) =
     attempted (fst (translate_entries opts w tgt (path_join root_dir file_name) [] po s))"
  by (simp add: translate_file_def Let_def after_def split: prod.splits)

text \<open>Definitions unfolded to run the command on the small installation.\<close>

lemmas run_defs =
  ascii_def Let_def path_join_def slash_def basename_def dirname_def path_head_def
  rstrip_slash_def endswith_def py_strip_def py_isspace_def fuzzy_def translated_def
  selected_def check_limit_def prune_def after_def wait_for_rate_limit_def try_translate_def
  translate_entries.simps translate_file_def walk_def set_options_def handle_def
  demo_world_def demo_options_def demo_state_def demo_catalog_def demo_path_def demo_disk_def

text \<open>
  Claim C4 says that of the entries of a catalog exactly the selected ones are attempted.
  With a cap of one translation and the catalog of the small installation, three entries
  are selected, and only the first is attempted: the loop returns when it reaches the
  second with the counter at the cap.
\<close>

theorem entry_selection_counterexample:
  "attempted (fst (translate_file (demo_options\<lparr>limit_translations := Some 1\<rparr>) demo_world
      (ascii ''locale/fr/LC_MESSAGES'') (ascii ''django.po'') (ascii ''fr'') demo_disk))
     = [ascii ''Hello''] \<and>
   map msgid (filter (selected (demo_options\<lparr>limit_translations := Some 1\<rparr>)) demo_catalog)
     = [ascii ''Hello'', ascii ''Bye'', ascii ''No'']"
  by (simp add: run_defs)

text \<open>
  Claim C4, amended. Let \<^verbatim>\<open>translate_file\<close> load a catalog \<open>po\<close>. If \<^verbatim>\<open>requests_per_10s\<close> is
  at least 1 and the cap leaves room for all selected entries of \<open>po\<close> (no cap, a cap of
  zero, or counter plus their number within the cap), then the texts sent to the translator
  are exactly the source texts of the selected entries, in catalog order: an entry is
  attempted if and only if its trimmed source text is non-empty and it is not skipped as
  already translated under \<open>skip_translated\<close>. Under every configuration the attempted texts
  are an initial part of those, so an entry whose source text is empty or whitespace is
  never attempted; and the number of selected entries does not depend on their order.
\<close>

theorem entry_selection:
  assumes "disk s (path_join root_dir file_name) = Some po"
  shows "(1 \<le> requests_per_10s opts \<and>
          cap_allows opts s (length (filter (selected opts) po)) \<longrightarrow>
            attempted (fst (translate_file opts w root_dir file_name tgt s)) =
              map msgid (filter (selected opts) po)) \<and>
         prefix (attempted (fst (translate_file opts w root_dir file_name tgt s)))
           (map msgid (filter (selected opts) po)) \<and>
         (\<forall>text \<in> set (attempted (fst (translate_file opts w root_dir file_name tgt s))).
            py_strip text \<noteq> []) \<and>
         (\<forall>po'. mset po' = mset po \<longrightarrow>
            length (filter (selected opts) po') = length (filter (selected opts) po))"
proof -
  let ?run = "attempted (fst (translate_file opts w root_dir file_name tgt s))"
  have pre: "prefix ?run (map msgid (filter (selected opts) po))"
    unfolding translate_file_loaded[OF assms] by (rule attempted_prefix)
  have "set ?run \<subseteq> set (map msgid (filter (selected opts) po))"
    using pre by (rule set_mono_prefix)
  then have blank: "\<forall>text \<in> set ?run. py_strip text \<noteq> []"
    by (auto simp: selected_def)
  have perm: "length (filter (selected opts) po') = length (filter (selected opts) po)"
    if "mset po' = mset po" for po'
  proof -
    have "mset (filter (selected opts) po') = mset (filter (selected opts) po)"
      using that by (metis mset_filter)
    then show ?thesis by (rule mset_eq_length)
  qed
  have full: "attempted (fst (translate_file opts w root_dir file_name tgt s)) =
      map msgid (filter (selected opts) po)"
    if "1 \<le> requests_per_10s opts"
      and "cap_allows opts s (length (filter (selected opts) po))"
    unfolding translate_file_loaded[OF assms] using that by (rule attempted_all)
  show ?thesis
    using pre blank perm full by blast
qed

theorem entry_selection_witness:
  "disk demo_disk (path_join (ascii ''locale/fr/LC_MESSAGES'') (ascii ''django.po''))
     = Some demo_catalog \<and>
   1 \<le> requests_per_10s demo_options \<and>
   cap_allows demo_options demo_disk (length (filter (selected demo_options) demo_catalog)) \<and>
   attempted (fst (translate_file demo_options demo_world (ascii ''locale/fr/LC_MESSAGES'')
     (ascii ''django.po'') (ascii ''fr'') demo_disk)) =
     [ascii ''Hello'', ascii ''Bye'', ascii ''No'']"
proof -
  have h: "disk demo_disk (path_join (ascii ''locale/fr/LC_MESSAGES'') (ascii ''django.po''))
      = Some demo_catalog"
    by (simp add: run_defs)
  have r: "1 \<le> requests_per_10s demo_options" by (simp add: demo_options_def)
  have c: "cap_allows demo_options demo_disk
      (length (filter (selected demo_options) demo_catalog))"
    by (simp add: cap_allows_def demo_options_def)
  have m: "map msgid (filter (selected demo_options) demo_catalog)
      = [ascii ''Hello'', ascii ''Bye'', ascii ''No'']"
    by (simp add: run_defs)
  have "1 \<le> requests_per_10s demo_options \<and>
      cap_allows demo_options demo_disk
        (length (filter (selected demo_options) demo_catalog)) \<longrightarrow>
      attempted (fst (translate_file demo_options demo_world (ascii ''locale/fr/LC_MESSAGES'')
        (ascii ''django.po'') (ascii ''fr'') demo_disk)) =
      map msgid (filter (selected demo_options) demo_catalog)"
    using entry_selection[OF h, of demo_options demo_world "ascii ''fr''"]
    by (rule conjunct1)
  then show ?thesis
    using h r c unfolding m by blast
qed

section \<open>Configuration errors\<close>

text \<open>
  Claim C9. If internationalization is disabled or no catalog root is configured, \<^verbatim>\<open>handle\<close>
  raises an \<^verbatim>\<open>AssertionError\<close> right after \<^verbatim>\<open>set_options\<close>: the run produces no event at
  all (no directory is walked, no catalog loaded, no entry selected, no translation call
  made) and the state is the one \<^verbatim>\<open>set_options\<close> leaves.
\<close>

theorem config_error_aborts:
  assumes "\<not> use_i18n w \<or> locale_paths w = []"
  shows "case handle opts w s of
           (evs, s', f) \<Rightarrow>
             evs = [] \<and> s' = set_options s \<and> (\<exists>msg. f = Raise (AssertionError msg))"
  using assms by (auto simp: handle_def Let_def)

theorem config_error_aborts_witness:
  "locale_paths (demo_world\<lparr>locale_paths := []\<rparr>) = [] \<and>
   (case handle demo_options (demo_world\<lparr>locale_paths := []\<rparr>) demo_disk of
      (evs, s', f) \<Rightarrow>
        evs = [] \<and> s' = set_options demo_disk \<and> (\<exists>msg. f = Raise (AssertionError msg)))"
proof -
  have e: "locale_paths (demo_world\<lparr>locale_paths := []\<rparr>) = []"
    by simp
  then have h: "\<not> use_i18n (demo_world\<lparr>locale_paths := []\<rparr>) \<or>
      locale_paths (demo_world\<lparr>locale_paths := []\<rparr>) = []"
    by (rule disjI2)
  show ?thesis
    using e config_error_aborts[OF h, where opts=demo_options and s=demo_disk] by blast
qed

section \<open>The locale allow-list\<close>

lemma handle_files_hit:
  "check_limit opts s = Some l \<Longrightarrow>
   handle_files opts w root_dir (file # files) s = ([Info_limit_stopping l], s, Return ())"
  by simp

lemma handle_files_other:
  "check_limit opts s = None \<Longrightarrow> \<not> is_po file \<Longrightarrow>
   handle_files opts w root_dir (file # files) s = handle_files opts w root_dir files s"
  by (simp add: is_po_def)

lemma handle_files_skip:
  "check_limit opts s = None \<Longrightarrow> is_po file \<Longrightarrow>
   locales opts \<noteq> [] \<Longrightarrow> basename (dirname root_dir) \<notin> set (locales opts) \<Longrightarrow>
   handle_files opts w root_dir (file # files) s =
     after [Info_skipping_locale (basename (dirname root_dir))]
       (handle_files opts w root_dir files s)"
  by (simp add: is_po_def)

lemma handle_files_process:
  "check_limit opts s = None \<Longrightarrow> is_po file \<Longrightarrow>
   locales opts = [] \<or> basename (dirname root_dir) \<in> set (locales opts) \<Longrightarrow>
   translate_file opts w root_dir file (basename (dirname root_dir)) s = (evs, s1, f) \<Longrightarrow>
   handle_files opts w root_dir (file # files) s =
     (case f of
        Raise x \<Rightarrow> (evs, s1, Raise x)
      | Return True \<Rightarrow> after evs (handle_files opts w root_dir files s1)
      | _ \<Rightarrow> (evs, s1, Return ()))"
  by (cases f) (auto simp: is_po_def Let_def split: bool.splits)

declare handle_files.simps(2) [simp del]

lemma handle_files_disallowed:
  assumes "locales opts \<noteq> []" and "basename (dirname root_dir) \<notin> set (locales opts)"
  shows "handle_files opts w root_dir files s =
     (case check_limit opts s of
        Some l \<Rightarrow> if files = [] then ([], s, Continue)
                  else ([Info_limit_stopping l], s, Return ())
      | None \<Rightarrow>
          (map (\<lambda>_. Info_skipping_locale (basename (dirname root_dir))) (filter is_po files),
           s, Continue))"
proof (induction files)
  case Nil
  then show ?case by (simp split: option.splits)
next
  case (Cons name names)
  show ?case
  proof (cases "check_limit opts s")
    case (Some l)
    then show ?thesis by (simp add: handle_files_hit)
  next
    case None
    then show ?thesis
      using Cons assms
      by (cases "is_po name") (simp_all add: handle_files_other handle_files_skip after_def)
  qed
qed

text \<open>
  Claim C6. The target locale of a file is computed from the directory path alone, so it is
  the same for all files of one directory of the walk. With a non-empty allow-list that does
  not contain it, the loop over the files of the directory loads nothing, attempts nothing
  and writes nothing: the state is unchanged and the only events are one skip report for
  each \<^verbatim>\<open>.po\<close> file (or the report that the cap is reached, if it is). With an empty
  allow-list a \<^verbatim>\<open>.po\<close> file is processed whatever its locale: the events of the loop begin
  with the loading of that file.
\<close>

theorem locale_allow_list:
  "(locales opts \<noteq> [] \<and> basename (dirname root_dir) \<notin> set (locales opts) \<longrightarrow>
      handle_files opts w root_dir files s =
        (case check_limit opts s of
           Some l \<Rightarrow> if files = [] then ([], s, Continue)
                     else ([Info_limit_stopping l], s, Return ())
         | None \<Rightarrow>
             (map (\<lambda>_. Info_skipping_locale (basename (dirname root_dir)))
                (filter is_po files),
              s, Continue))) \<and>
   (locales opts = [] \<and> check_limit opts s = None \<and> is_po file \<longrightarrow>
      (\<exists>rest. fst (handle_files opts w root_dir (file # files) s) =
         Info_filling_up (basename (dirname root_dir)) #
         Load (path_join root_dir file) # rest))"
proof (intro conjI impI)
  assume "locales opts \<noteq> [] \<and> basename (dirname root_dir) \<notin> set (locales opts)"
  then show "handle_files opts w root_dir files s =
        (case check_limit opts s of
           Some l \<Rightarrow> if files = [] then ([], s, Continue)
                     else ([Info_limit_stopping l], s, Return ())
         | None \<Rightarrow>
             (map (\<lambda>_. Info_skipping_locale (basename (dirname root_dir)))
                (filter is_po files),
              s, Continue))"
    using handle_files_disallowed by blast
next
  assume a: "locales opts = [] \<and> check_limit opts s = None \<and> is_po file"
  obtain evs s1 f where t: "translate_file opts w root_dir file (basename (dirname root_dir)) s = (evs, s1, f)"
    by (metis prod_cases3)
  have "\<exists>r. evs = Info_filling_up (basename (dirname root_dir)) # Load (path_join root_dir file) # r"
    using t by (auto simp: translate_file_def Let_def after_def split: option.splits prod.splits)
  then show "\<exists>rest. fst (handle_files opts w root_dir (file # files) s) =
         Info_filling_up (basename (dirname root_dir)) #
         Load (path_join root_dir file) # rest"
    using a handle_files_process[OF _ _ _ t, of files]
    by (cases f) (auto simp: after_def split: bool.splits prod.splits)
qed


theorem locale_allow_list_witness:
  "locales (demo_options\<lparr>locales := [ascii ''de'']\<rparr>) \<noteq> [] \<and>
   basename (dirname (ascii ''locale/fr/LC_MESSAGES''))
     \<notin> set (locales (demo_options\<lparr>locales := [ascii ''de'']\<rparr>)) \<and>
   handle_files (demo_options\<lparr>locales := [ascii ''de'']\<rparr>) demo_world
     (ascii ''locale/fr/LC_MESSAGES'') [ascii ''django.po''] demo_disk =
     ([Info_skipping_locale (ascii ''fr'')], demo_disk, Continue)"
proof -
  let ?o = "demo_options\<lparr>locales := [ascii ''de'']\<rparr>"
  let ?r = "ascii ''locale/fr/LC_MESSAGES''"
  have h: "locales ?o \<noteq> [] \<and> basename (dirname ?r) \<notin> set (locales ?o)"
    by (simp add: run_defs)
  have b: "basename (dirname ?r) = ascii ''fr''" by (simp add: run_defs)
  have c: "check_limit ?o demo_disk = None" by (simp add: run_defs)
  have p: "filter is_po [ascii ''django.po''] = [ascii ''django.po'']"
    by (simp add: is_po_def run_defs)
  have "handle_files ?o demo_world ?r [ascii ''django.po''] demo_disk =
        (case check_limit ?o demo_disk of
           Some l \<Rightarrow> if [ascii ''django.po''] = [] then ([], demo_disk, Continue)
                     else ([Info_limit_stopping l], demo_disk, Return ())
         | None \<Rightarrow>
             (map (\<lambda>_. Info_skipping_locale (basename (dirname ?r)))
                (filter is_po [ascii ''django.po'']),
              demo_disk, Continue))"
    using locale_allow_list[where opts="?o" and root_dir="?r" and w=demo_world
        and files="[ascii ''django.po'']" and s=demo_disk] h
    by blast
  then show ?thesis using h unfolding c p b by simp
qed

section \<open>Translation errors are survived\<close>

lemma translate_entries_no_raise:
  assumes rp: "1 \<le> requests_per_10s opts"
  shows "snd (snd (translate_entries opts w tgt path seen es s)) \<noteq> Raise x"
proof (induction es arbitrary: seen s)
  case Nil
  then show ?case by simp
next
  case (Cons e es)
  show ?case
  proof (cases "check_limit opts s")
    case (Some l)
    then show ?thesis by (simp add: translate_entries_hit)
  next
    case None
    show ?thesis
    proof (cases "selected opts e")
      case False
      then show ?thesis using None Cons.IH by (simp add: translate_entries_skip)
    next
      case True
      obtain evs s1 f where w: "wait_for_rate_limit opts w s = (evs, s1, f)"
        by (metis prod_cases3)
      obtain evs' e' s2 where
        t: "try_translate opts w tgt path seen e es (attempts s) s1 = (evs', e', s2)"
        by (metis prod_cases3)
      have f: "f = Continue" using wait_no_raise[OF rp w] .
      show ?thesis
        using Cons.IH[where seen="seen @ [e']" and s=s2]
        by (auto simp: translate_entries_attempt[OF None True w t] f after_def
            split: prod.splits)
    qed
  qed
qed

text \<open>
  Claim C5. Let an entry be attempted (the cap is not reached, the entry is selected, the
  rate limiter has returned) and let the translator raise \<open>x\<close>. Then the events of the
  entry are those of the limiter, the call, and the error report with the source text cut
  to 50 characters: nothing is saved. The entry stays in the catalog as it was, the counter
  and the disk are as before, and the loop goes on with the next entry. With
  \<^verbatim>\<open>requests_per_10s\<close> at least 1 the loop over the entries never ends by raising, whatever
  the translator does.
\<close>

theorem translation_error_recovered:
  assumes "translate_string w (attempts s) (msgid e) (source_language opts) tgt = Inl x"
    and "check_limit opts s = None" and "selected opts e"
    and "wait_for_rate_limit opts w s = (evs, s1, Continue)"
  shows "translate_entries opts w tgt path seen (e # es) s =
           after (evs @ [Translate_call (msgid e) (source_language opts) tgt,
                         Error_translating (take 50 (msgid e)) x])
             (translate_entries opts w tgt path (seen @ [e]) es s1) \<and>
         translated_count s1 = translated_count s \<and> disk s1 = disk s \<and>
         (1 \<le> requests_per_10s opts \<longrightarrow>
            (\<forall>y. snd (snd (translate_entries opts w tgt path seen (e # es) s)) \<noteq> Raise y))"
proof -
  have t: "try_translate opts w tgt path seen e es (attempts s) s1 =
      ([Translate_call (msgid e) (source_language opts) tgt,
        Error_translating (take 50 (msgid e)) x], e, s1)"
    using assms(1) by (simp add: try_translate_def)
  show ?thesis
    using translate_entries_attempt[OF assms(2,3,4) t] wait_frame[OF assms(4)]
      translate_entries_no_raise[of opts w tgt path seen "e # es" s]
    by simp
qed

theorem translation_error_recovered_witness:
  "translate_string demo_world 1 (msgid demo_bye) (source_language demo_options) (ascii ''fr'')
     = Inl (Exception (ascii ''timeout'')) \<and>
   check_limit demo_options (demo_disk\<lparr>attempts := 1\<rparr>) = None \<and>
   selected demo_options demo_bye \<and>
   wait_for_rate_limit demo_options demo_world (demo_disk\<lparr>attempts := 1\<rparr>) =
     ([Acquire 1], demo_disk\<lparr>clock := 1, request_times := [1], attempts := 2\<rparr>, Continue) \<and>
   translate_entries demo_options demo_world (ascii ''fr'') demo_path [demo_hello]
     [demo_bye] (demo_disk\<lparr>attempts := 1\<rparr>) =
     ([Acquire 1, Translate_call (ascii ''Bye'') (ascii ''en'') (ascii ''fr''),
       Error_translating (ascii ''Bye'') (Exception (ascii ''timeout''))],
      demo_disk\<lparr>clock := 1, request_times := [1], attempts := 2\<rparr>, Return True)"
proof -
  let ?s = "demo_disk\<lparr>attempts := 1\<rparr>"
  let ?s1 = "demo_disk\<lparr>clock := 1, request_times := [1], attempts := 2\<rparr>"
  have h1: "translate_string demo_world (attempts ?s) (msgid demo_bye)
      (source_language demo_options) (ascii ''fr'') = Inl (Exception (ascii ''timeout''))"
    by (simp add: demo_world_def)
  have h2: "check_limit demo_options ?s = None"
    by (simp add: check_limit_def demo_options_def)
  have h3: "selected demo_options demo_bye"
    by (simp add: demo_bye_def run_defs)
  have h4: "wait_for_rate_limit demo_options demo_world ?s = ([Acquire 1], ?s1, Continue)"
    by (simp add: run_defs)
  have m: "msgid demo_bye = ascii ''Bye''" "source_language demo_options = ascii ''en''"
    by (simp_all add: demo_bye_def demo_options_def)
  have "translate_entries demo_options demo_world (ascii ''fr'') demo_path [demo_hello]
      (demo_bye # []) ?s =
      after ([Acquire 1] @ [Translate_call (msgid demo_bye) (source_language demo_options)
                 (ascii ''fr''),
               Error_translating (take 50 (msgid demo_bye)) (Exception (ascii ''timeout''))])
        (translate_entries demo_options demo_world (ascii ''fr'') demo_path
           ([demo_hello] @ [demo_bye]) [] ?s1)"
    using translation_error_recovered[OF h1 h2 h3 h4] by (rule conjunct1)
  then have "translate_entries demo_options demo_world (ascii ''fr'') demo_path [demo_hello]
      [demo_bye] ?s =
      ([Acquire 1, Translate_call (ascii ''Bye'') (ascii ''en'') (ascii ''fr''),
       Error_translating (ascii ''Bye'') (Exception (ascii ''timeout''))], ?s1, Return True)"
    by (simp add: after_def m ascii_def)
  then show ?thesis using h1 h2 h3 h4 by simp
qed

section \<open>The fuzzy flag\<close>








section \<open>One rate-limiter slot for each attempt\<close>

lemma wait_events:
  "wait_for_rate_limit opts w s = (evs, s1, f) \<Longrightarrow>
     (f = Raise IndexError \<and> evs = []) \<or>
     (f = Continue \<and>
      (evs = [Acquire (clock s1)] \<or>
       (\<exists>d. evs = [Info_rate_wait d, Sleep d, Acquire (clock s1)])))"
  by (auto simp: wait_for_rate_limit_def Let_def split: if_splits list.splits)

lemma try_events:
  "try_translate opts w tgt path seen e es n s = (evs, e', s') \<Longrightarrow>
     \<exists>c x i a b.
       evs = [Translate_call (msgid e) (source_language opts) tgt, Error_translating c x] \<or>
       evs = [Translate_call (msgid e) (source_language opts) tgt, Save_failed path,
              Error_translating c x] \<or>
       evs = [Translate_call (msgid e) (source_language opts) tgt, Save path (seen @ e' # es),
              Info_translated i a b]"
  by (auto simp: try_translate_def Let_def split: sum.splits option.splits)

lemma attempt_events:
  assumes w: "wait_for_rate_limit opts w s = (evs, s1, Continue)"
    and t: "try_translate opts w tgt path seen e es n s1 = (evs', e', s2)"
  shows "paired (evs @ evs' @ rest) = paired rest"
    and "acquired (evs @ evs' @ rest) = clock s1 # acquired rest"
    and "attempted (evs @ evs' @ rest) = msgid e # attempted rest"
    and "acquired evs = [clock s1]" and "acquired evs' = []"
  using wait_events[OF w] try_events[OF t] by (auto simp: is_acquire_def is_call_def)

lemma wait_same_limiter:
  "same_limiter s t \<Longrightarrow> wait_for_rate_limit opts w s = (evs, s1, f) \<Longrightarrow>
     \<exists>t1. wait_for_rate_limit opts w t = (evs, t1, f) \<and> same_limiter s1 t1"
  by (auto simp: wait_for_rate_limit_def Let_def same_limiter_def split: if_splits list.splits)

lemma try_same_limiter:
  "try_translate opts w tgt path seen e es n s = (evs, e', s') \<Longrightarrow> same_limiter s' s"
  by (auto simp: try_translate_def Let_def same_limiter_def split: sum.splits option.splits)

lemma same_limiter_trans: "same_limiter a b \<Longrightarrow> same_limiter b c \<Longrightarrow> same_limiter a c"
  by (simp add: same_limiter_def)

lemma entries_paired:
  "case translate_entries opts w tgt path seen es s of
     (evs, s', f) \<Rightarrow> paired evs \<and> length (acquired evs) = length (attempted evs)"
proof (induction es arbitrary: seen s)
  case Nil
  then show ?case by simp
next
  case (Cons e es)
  show ?case
  proof (cases "check_limit opts s")
    case (Some l)
    then show ?thesis by (simp add: translate_entries_hit is_acquire_def is_call_def)
  next
    case None
    show ?thesis
    proof (cases "selected opts e")
      case False
      then show ?thesis using None Cons.IH by (simp add: translate_entries_skip)
    next
      case True
      obtain evs s1 f where w: "wait_for_rate_limit opts w s = (evs, s1, f)"
        by (metis prod_cases3)
      obtain evs' e' s2 where
        t: "try_translate opts w tgt path seen e es (attempts s) s1 = (evs', e', s2)"
        by (metis prod_cases3)
      obtain evs3 s3 f3 where
        rec: "translate_entries opts w tgt path (seen @ [e']) es s2 = (evs3, s3, f3)"
        by (metis prod_cases3)
      have ih: "paired evs3 \<and> length (acquired evs3) = length (attempted evs3)"
        using Cons.IH[where seen="seen @ [e']" and s=s2] rec by simp
      from wait_events[OF w] show ?thesis
      proof
        assume "f = Raise IndexError \<and> evs = []"
        then show ?thesis by (simp add: translate_entries_attempt[OF None True w t])
      next
        assume a: "f = Continue \<and>
          (evs = [Acquire (clock s1)] \<or> (\<exists>d. evs = [Info_rate_wait d, Sleep d, Acquire (clock s1)]))"
        then have w': "wait_for_rate_limit opts w s = (evs, s1, Continue)" using w by simp
        show ?thesis
          using a ih rec attempt_events(1,2,3)[OF w' t, where rest=evs3]
          by (simp add: translate_entries_attempt[OF None True w t] after_def)
      qed
    qed
  qed
qed

lemma entries_limiter:
  "same_limiter s t \<Longrightarrow> translate_entries opts w tgt path seen es s = (evs, s', f) \<Longrightarrow>
   \<forall>x. f \<noteq> Raise x \<Longrightarrow>
   \<exists>evs2 t'. acquire_calls opts w (length (attempted evs)) t = (evs2, t', Continue) \<and>
     acquired evs2 = acquired evs \<and> same_limiter s' t'"
proof (induction es arbitrary: seen s t evs s' f)
  case Nil
  then show ?case by auto
next
  case (Cons e es)
  show ?case
  proof (cases "check_limit opts s")
    case (Some l)
    then show ?thesis using Cons.prems by (auto simp: translate_entries_hit)
  next
    case None
    show ?thesis
    proof (cases "selected opts e")
      case False
      then show ?thesis using None Cons.IH[OF Cons.prems(1)] Cons.prems(2,3)
        by (simp add: translate_entries_skip)
    next
      case True
      obtain evs1 s1 f1 where w: "wait_for_rate_limit opts w s = (evs1, s1, f1)"
        by (metis prod_cases3)
      obtain evs' e' s2 where
        t: "try_translate opts w tgt path seen e es (attempts s) s1 = (evs', e', s2)"
        by (metis prod_cases3)
      obtain evs3 s3 f3 where
        rec: "translate_entries opts w tgt path (seen @ [e']) es s2 = (evs3, s3, f3)"
        by (metis prod_cases3)
      have f1: "f1 = Continue"
        using wait_events[OF w] Cons.prems(2,3)
        by (auto simp: translate_entries_attempt[OF None True w t])
      then have w': "wait_for_rate_limit opts w s = (evs1, s1, Continue)" using w by simp
      have res: "evs = evs1 @ evs' @ evs3" "s' = s3" "f = f3"
        using Cons.prems(2) rec f1
        by (simp_all add: translate_entries_attempt[OF None True w t] after_def)
      obtain t1 where wt: "wait_for_rate_limit opts w t = (evs1, t1, Continue)"
        and l1: "same_limiter s1 t1"
        using wait_same_limiter[OF Cons.prems(1) w'] by blast
      have l2: "same_limiter s2 t1"
        using try_same_limiter[OF t] l1 by (rule same_limiter_trans)
      have nr: "\<forall>x. f3 \<noteq> Raise x" using Cons.prems(3) res by simp
      from Cons.IH[OF l2 rec nr] obtain evs2 t' where
        a: "acquire_calls opts w (length (attempted evs3)) t1 = (evs2, t', Continue)"
        and b: "acquired evs2 = acquired evs3" and c: "same_limiter s3 t'"
        by blast
      have "acquire_calls opts w (length (attempted evs)) t = (evs1 @ evs2, t', Continue)"
        using a wt attempt_events(3)[OF w' t, where rest=evs3] res by (simp add: after_def)
      moreover have "acquired (evs1 @ evs2) = acquired evs"
        using b attempt_events(4,5)[OF w' t] res
        by (simp add: acquired_append)
      ultimately show ?thesis using c res by blast
    qed
  qed
qed


text \<open>
  Claim C10. In the events of the loop over the entries of a catalog, every recording of a
  timestamp by \<^verbatim>\<open>wait_for_rate_limit\<close> is followed at once by a call of the translator and
  the translator is called at no other point, so that each attempted entry takes exactly
  one slot, before the call. Unless the limiter itself raises, the timestamps recorded and
  the final \<^verbatim>\<open>request_times\<close> are those of as many bare calls of \<^verbatim>\<open>wait_for_rate_limit\<close>
  as there were attempts: they do not depend on what the translator answered, and a failed
  attempt keeps its timestamp like a successful one.
\<close>

theorem slot_per_attempt:
  "case translate_entries opts w tgt path seen es s of
     (evs, s', f) \<Rightarrow>
       paired evs \<and> length (acquired evs) = length (attempted evs) \<and>
       ((\<forall>x. f \<noteq> Raise x) \<longrightarrow>
          (case acquire_calls opts w (length (attempted evs)) s of
             (evs2, s2, f2) \<Rightarrow>
               f2 = Continue \<and> acquired evs2 = acquired evs \<and>
               request_times s' = request_times s2 \<and> clock s' = clock s2))"
proof -
  obtain evs s' f where r: "translate_entries opts w tgt path seen es s = (evs, s', f)"
    by (metis prod_cases3)
  have p: "paired evs \<and> length (acquired evs) = length (attempted evs)"
    using entries_paired[where opts=opts and w=w and tgt=tgt and path=path and seen=seen
        and es=es and s=s] r by simp
  have "case acquire_calls opts w (length (attempted evs)) s of
          (evs2, s2, f2) \<Rightarrow>
            f2 = Continue \<and> acquired evs2 = acquired evs \<and>
            request_times s' = request_times s2 \<and> clock s' = clock s2"
    if "\<forall>x. f \<noteq> Raise x"
  proof -
    have "same_limiter s s" by (simp add: same_limiter_def)
    from entries_limiter[OF this r that] show ?thesis
      by (auto simp: same_limiter_def)
  qed
  then show ?thesis using r p by simp
qed

theorem slot_per_attempt_witness:
  "snd (snd (translate_entries demo_options demo_world (ascii ''fr'') demo_path []
      demo_catalog demo_disk)) = Return True \<and>
   attempted (fst (translate_entries demo_options demo_world (ascii ''fr'') demo_path []
      demo_catalog demo_disk)) = [ascii ''Hello'', ascii ''Bye'', ascii ''No''] \<and>
   acquired (fst (translate_entries demo_options demo_world (ascii ''fr'') demo_path []
      demo_catalog demo_disk)) = [1, 2, 11] \<and>
   acquired (fst (acquire_calls demo_options demo_world 3 demo_disk)) = [1, 2, 11] \<and>
   request_times (fst (snd (translate_entries demo_options demo_world (ascii ''fr'') demo_path
      [] demo_catalog demo_disk))) =
   request_times (fst (snd (acquire_calls demo_options demo_world 3 demo_disk)))"
proof -
  let ?run = "translate_entries demo_options demo_world (ascii ''fr'') demo_path []
      demo_catalog demo_disk"
  have f: "snd (snd ?run) = Return True" by (simp add: run_defs)
  have a: "attempted (fst ?run) = [ascii ''Hello'', ascii ''Bye'', ascii ''No'']"
    by (simp add: run_defs)
  have q: "acquired (fst ?run) = [1, 2, 11]" by (simp add: run_defs)
  have n: "length (attempted (fst ?run)) = 3" unfolding a by simp
  have "case ?run of
     (evs, s', f) \<Rightarrow>
       paired evs \<and> length (acquired evs) = length (attempted evs) \<and>
       ((\<forall>x. f \<noteq> Raise x) \<longrightarrow>
          (case acquire_calls demo_options demo_world (length (attempted evs)) demo_disk of
             (evs2, s2, f2) \<Rightarrow>
               f2 = Continue \<and> acquired evs2 = acquired evs \<and>
               request_times s' = request_times s2 \<and> clock s' = clock s2))"
    by (rule slot_per_attempt)
  then have "case acquire_calls demo_options demo_world 3 demo_disk of
      (evs2, s2, f2) \<Rightarrow>
        f2 = Continue \<and> acquired evs2 = acquired (fst ?run) \<and>
        request_times (fst (snd ?run)) = request_times s2 \<and>
        clock (fst (snd ?run)) = clock s2"
    using f n by (auto split: prod.splits)
  then show ?thesis using f a q by (auto split: prod.splits)
qed

section \<open>The target locale\<close>

lemma pieces_no_slash: "slash \<notin> set xs \<Longrightarrow> pieces cur xs = [cur @ xs]"
  by (induction xs arbitrary: cur) auto

lemma pieces_slash: "pieces cur (xs @ slash # ys) = pieces cur xs @ pieces [] ys"
  by (induction xs arbitrary: cur) auto

lemma components_slash: "components (xs @ slash # ys) = components xs @ components ys"
  by (simp add: components_def pieces_slash)

lemma components_name: "valid_name n \<Longrightarrow> components n = [n]"
  by (simp add: components_def valid_name_def pieces_no_slash)

lemma takeWhile_stop:
  "\<forall>x \<in> set xs. P x \<Longrightarrow> \<not> P y \<Longrightarrow> takeWhile P (xs @ y # ys) = xs"
  by (induction xs) auto

lemma dropWhile_stop:
  "\<forall>x \<in> set xs. P x \<Longrightarrow> \<not> P y \<Longrightarrow> dropWhile P (xs @ y # ys) = y # ys"
  by (induction xs) auto

lemma takeWhile_all: "\<forall>x \<in> set xs. P x \<Longrightarrow> takeWhile P xs = xs"
  by (induction xs) auto

lemma basename_after_slash:
  assumes "slash \<notin> set b"
  shows "basename (x @ slash # b) = b"
proof -
  have "\<forall>c \<in> set (rev b). c \<noteq> slash" using assms by auto
  then have "takeWhile (\<lambda>c. c \<noteq> slash) (rev b @ slash # rev x) = rev b"
    by (rule takeWhile_stop) simp
  then show ?thesis by (simp add: basename_def)
qed

lemma basename_name:
  assumes "slash \<notin> set b"
  shows "basename b = b"
proof -
  have "\<forall>c \<in> set (rev b). c \<noteq> slash" using assms by auto
  then have "takeWhile (\<lambda>c. c \<noteq> slash) (rev b) = rev b"
    by (rule takeWhile_all)
  then show ?thesis unfolding basename_def by (simp only: rev_rev_ident)
qed

lemma path_head_after_slash:
  assumes "slash \<notin> set b"
  shows "path_head (x @ slash # b) = x @ [slash]"
proof -
  have "\<forall>c \<in> set (rev b). c \<noteq> slash" using assms by auto
  then have "dropWhile (\<lambda>c. c \<noteq> slash) (rev b @ slash # rev x) = slash # rev x"
    by (rule dropWhile_stop) simp
  then show ?thesis by (simp add: path_head_def)
qed

lemma valid_name_last: "valid_name a \<Longrightarrow> last a \<noteq> slash"
  by (metis last_in_set valid_name_def)

lemma rstrip_slash_name:
  assumes "valid_name a"
  shows "rstrip_slash (pre @ a @ [slash]) = pre @ a"
proof -
  have "rev a \<noteq> []" using assms by (simp add: valid_name_def)
  moreover have "hd (rev a) \<noteq> slash"
    using assms valid_name_last[OF assms] by (simp add: hd_rev valid_name_def)
  ultimately have "dropWhile (\<lambda>c. c = slash) (rev a @ rev pre) = rev a @ rev pre"
    by (cases "rev a") auto
  then show ?thesis by (simp add: rstrip_slash_def)
qed

lemma dirname_layout:
  assumes "valid_name loc" and "valid_name sub"
  shows "dirname (pre @ loc @ [slash] @ sub) = pre @ loc"
proof -
  have h: "path_head (pre @ loc @ [slash] @ sub) = pre @ loc @ [slash]"
    using path_head_after_slash[of sub "pre @ loc"] assms(2) by (simp add: valid_name_def)
  obtain c where "c \<in> set loc" "c \<noteq> slash"
    using assms(1) by (cases loc) (auto simp: valid_name_def)
  then have n: "\<not> (\<forall>c \<in> set (pre @ loc @ [slash]). c = slash)" by auto
  have "dirname (pre @ loc @ [slash] @ sub) = rstrip_slash (pre @ loc @ [slash])"
    unfolding dirname_def h Let_def using n by simp
  then show ?thesis
    using rstrip_slash_name[OF assms(1), of pre] by simp
qed

lemma locale_of_layout:
  assumes "valid_name loc" and "valid_name sub" and "pre = [] \<or> last pre = slash"
  shows "basename (dirname (pre @ loc @ [slash] @ sub)) = loc"
proof (cases "pre = []")
  case True
  then show ?thesis
    using assms dirname_layout[OF assms(1,2), of pre]
    by (simp add: basename_name valid_name_def)
next
  case False
  then obtain pre' where "pre = pre' @ [slash]"
    using assms(3) by (metis append_butlast_last_id)
  then show ?thesis
    using assms dirname_layout[OF assms(1,2), of pre] basename_after_slash[of loc pre']
    by (simp add: valid_name_def)
qed

lemma grandparent_of_layout:
  assumes "valid_name loc" and "valid_name sub" and "valid_name file_name"
    and "pre = [] \<or> last pre = slash"
  shows "grandparent_name (path_join (pre @ loc @ [slash] @ sub) file_name) = Some loc"
proof -
  have j: "path_join (pre @ loc @ slash # sub) file_name =
      pre @ loc @ slash # sub @ slash # file_name"
    using assms(2,3) valid_name_last[OF assms(2)]
    by (cases file_name) (auto simp: path_join_def valid_name_def)
  have c: "components (loc @ slash # sub @ slash # file_name) = [loc, sub, file_name]"
    using assms(1,2,3) components_slash[of loc "sub @ slash # file_name"]
      components_slash[of sub file_name]
    by (simp add: components_name)
  have "\<exists>cs. components (pre @ loc @ slash # sub @ slash # file_name) =
      cs @ [loc, sub, file_name]"
  proof (cases "pre = []")
    case True
    then show ?thesis using c by simp
  next
    case False
    then obtain pre' where "pre = pre' @ [slash]"
      using assms(4) by (metis append_butlast_last_id)
    then show ?thesis
      using c components_slash[of pre' "loc @ slash # sub @ slash # file_name"] by simp
  qed
  then show ?thesis by (auto simp: grandparent_name_def j)
qed


lemma targets_append: "targets (xs @ ys) = targets xs @ targets ys"
  by (induction xs rule: targets.induct) auto

lemma wait_targets: "wait_for_rate_limit opts w s = (evs, s1, f) \<Longrightarrow> targets evs = []"
  using wait_events by fastforce

lemma try_targets:
  "try_translate opts w tgt path seen e es n s = (evs, e', s') \<Longrightarrow> targets evs = [tgt]"
  using try_events by fastforce

lemma entries_targets:
  "set (targets (fst (translate_entries opts w tgt path seen es s))) \<subseteq> {tgt}"
proof (induction es arbitrary: seen s)
  case Nil
  then show ?case by simp
next
  case (Cons e es)
  show ?case
  proof (cases "check_limit opts s")
    case (Some l)
    then show ?thesis by (simp add: translate_entries_hit)
  next
    case None
    show ?thesis
    proof (cases "selected opts e")
      case False
      then show ?thesis using None Cons.IH by (simp add: translate_entries_skip)
    next
      case True
      obtain evs s1 f where w: "wait_for_rate_limit opts w s = (evs, s1, f)"
        by (metis prod_cases3)
      obtain evs' e' s2 where
        t: "try_translate opts w tgt path seen e es (attempts s) s1 = (evs', e', s2)"
        by (metis prod_cases3)
      obtain evs3 s3 f3 where
        rec: "translate_entries opts w tgt path (seen @ [e']) es s2 = (evs3, s3, f3)"
        by (metis prod_cases3)
      have "set (targets evs3) \<subseteq> {tgt}"
        using Cons.IH[where seen="seen @ [e']" and s=s2] rec by simp
      then show ?thesis
        using wait_targets[OF w] try_targets[OF t] rec
        by (cases f)
          (simp_all add: translate_entries_attempt[OF None True w t] after_def targets_append)
    qed
  qed
qed

lemma file_targets:
  "set (targets (fst (translate_file opts w root_dir file_name tgt s))) \<subseteq> {tgt}"
proof (cases "disk s (path_join root_dir file_name)")
  case None
  then show ?thesis by (simp add: translate_file_def Let_def)
next
  case (Some po)
  obtain evs s' f where
    r: "translate_entries opts w tgt (path_join root_dir file_name) [] po s = (evs, s', f)"
    by (metis prod_cases3)
  have "set (targets evs) \<subseteq> {tgt}"
    using entries_targets[where opts=opts and w=w and tgt=tgt and seen="[]" and s=s
        and path="path_join root_dir file_name" and es=po] r by simp
  then show ?thesis using Some r by (simp add: translate_file_def Let_def after_def)
qed

lemma files_targets:
  "set (targets (fst (handle_files opts w root_dir files s)))
     \<subseteq> {basename (dirname root_dir)}"
proof (induction files arbitrary: s)
  case Nil
  then show ?case by simp
next
  case (Cons name names)
  show ?case
  proof (cases "check_limit opts s")
    case (Some l)
    then show ?thesis by (simp add: handle_files_hit)
  next
    case None
    show ?thesis
    proof (cases "is_po name")
      case False
      then show ?thesis using None Cons.IH by (simp add: handle_files_other)
    next
      case True
      show ?thesis
      proof (cases "locales opts = [] \<or> basename (dirname root_dir) \<in> set (locales opts)")
        case False
        then show ?thesis
          using None True Cons.IH[of s]
          by (auto simp: handle_files_skip after_def split: prod.splits)
      next
        case allowed: True
        obtain evs s1 f where
          t: "translate_file opts w root_dir name (basename (dirname root_dir)) s = (evs, s1, f)"
          by (metis prod_cases3)
        have a: "set (targets evs) \<subseteq> {basename (dirname root_dir)}"
          using file_targets[of opts w root_dir name "basename (dirname root_dir)" s] t by simp
        obtain evs3 s3 f3 where rec: "handle_files opts w root_dir names s1 = (evs3, s3, f3)"
          by (metis prod_cases3)
        have b: "set (targets evs3) \<subseteq> {basename (dirname root_dir)}"
          using Cons.IH[of s1] rec by simp
        show ?thesis
          using a b rec
          by (cases f)
            (auto simp: handle_files_process[OF None True allowed t] after_def targets_append
              split: bool.splits)
      qed
    qed
  qed
qed

lemma join_name:
  assumes "valid_name n"
  shows "\<exists>pre. path_join top_dir n = pre @ n \<and> (pre = [] \<or> last pre = slash)"
proof -
  have "hd n \<noteq> slash" using assms by (cases n) (auto simp: valid_name_def)
  then show ?thesis
    using assms
    by (cases "top_dir = [] \<or> last top_dir = slash")
      (auto simp: path_join_def valid_name_def intro: exI[of _ "top_dir @ [slash]"])
qed

lemma join_layout:
  assumes "valid_name n" and "valid_name n'"
  shows "\<exists>pre. path_join (path_join top_dir n) n' = pre @ n @ [slash] @ n' \<and>
           (pre = [] \<or> last pre = slash)"
proof -
  obtain pre where p: "path_join top_dir n = pre @ n" "pre = [] \<or> last pre = slash"
    using join_name[OF assms(1)] by blast
  have "hd n' \<noteq> slash" using assms(2) by (cases n') (auto simp: valid_name_def)
  moreover have "pre @ n \<noteq> []" "last (pre @ n) \<noteq> slash"
    using assms(1) valid_name_last[OF assms(1)] by (auto simp: valid_name_def)
  ultimately have "path_join (pre @ n) n' = pre @ n @ [slash] @ n'"
    using assms(2) by (simp add: path_join_def valid_name_def)
  then show ?thesis using p by auto
qed

lemma os_walk_dirs:
  "(\<forall>n \<in> set nodes. valid_tree n) \<longrightarrow>
     (\<forall>t \<in> set (os_walk top_dir nodes).
        fst t = top_dir \<or> (\<exists>n. valid_name n \<and> fst t = path_join top_dir n) \<or> layout (fst t))"
  "(\<forall>n \<in> set nodes. valid_tree n) \<longrightarrow>
     (\<forall>t \<in> set (walk_subdirs top_dir nodes).
        (\<exists>n. valid_name n \<and> fst t = path_join top_dir n) \<or> layout (fst t))"
proof (induction top_dir nodes and top_dir nodes rule: os_walk_walk_subdirs.induct)
  case (1 top_dir nodes)
  then show ?case by auto
next
  case (2 top_dir)
  then show ?case by simp
next
  case (3 top_dir uu ns)
  then show ?case by simp
next
  case (4 top_dir n children ns)
  show ?case
  proof (intro impI ballI)
    fix t
    assume v: "\<forall>n \<in> set (Dir n children # ns). valid_tree n"
      and t: "t \<in> set (walk_subdirs top_dir (Dir n children # ns))"
    have vn: "valid_name n" and vc: "\<forall>c \<in> set children. valid_tree c"
      and vns: "\<forall>n \<in> set ns. valid_tree n"
      using v by auto
    from t consider (here) "t \<in> set (os_walk (path_join top_dir n) children)"
      | (later) "t \<in> set (walk_subdirs top_dir ns)"
      by auto
    then show "(\<exists>n. valid_name n \<and> fst t = path_join top_dir n) \<or> layout (fst t)"
    proof cases
      case here
      then consider "fst t = path_join top_dir n"
        | n' where "valid_name n'" "fst t = path_join (path_join top_dir n) n'"
        | "layout (fst t)"
        using "4.IH"(1) vc by blast
      then show ?thesis
      proof cases
        case 1
        then show ?thesis using vn by blast
      next
        case 2
        then show ?thesis using join_layout[OF vn 2(1), of top_dir] vn
          by (auto simp: layout_def)
      next
        case 3
        then show ?thesis by simp
      qed
    next
      case later
      then show ?thesis using "4.IH"(2) vns by blast
    qed
  qed
qed


text \<open>
  Claim C7 says that the target locale is the name of the directory two levels above the
  file, for every discovered catalog. Let the catalog root be configured as \<^verbatim>\<open>a/b/\<close>, with
  a trailing slash, and hold \<^verbatim>\<open>x.po\<close> directly. \<^verbatim>\<open>os.walk\<close> yields the root as it is
  written, \<^verbatim>\<open>os.path.dirname\<close> only removes the slash, and the translator is called with
  the target \<^verbatim>\<open>b\<close>, the directory of the file, while the directory two levels above
  \<^verbatim>\<open>a/b/x.po\<close> is \<^verbatim>\<open>a\<close>.
\<close>

theorem target_locale_counterexample:
  "targets (fst (handle demo_options flat_world flat_state)) = [ascii ''b''] \<and>
   grandparent_name (path_join (ascii ''a/b/'') (ascii ''x.po'')) = Some (ascii ''a'')"
  by (simp add: run_defs flat_world_def flat_state_def demo_hello_def handle_files.simps
      grandparent_name_def components_def)

text \<open>
  Claim C7, amended. For every catalog found in a directory of the walk, the target locale
  passed to the translator is \<^verbatim>\<open>os.path.basename(os.path.dirname(root))\<close> of the path of
  that directory as \<^verbatim>\<open>os.walk\<close> yields it. Whenever this path ends with two names,
  \<^verbatim>\<open>.../<locale>/<dir>\<close>, as in the layout \<^verbatim>\<open><root>/<locale>/LC_MESSAGES/<file>.po\<close>, this is
  the name of the directory two levels above the file. Every directory of the walk other
  than the root and its immediate subdirectories has a path of this form.
\<close>

theorem target_locale:
  "set (targets (fst (handle_files opts w root_dir files s)))
     \<subseteq> {basename (dirname root_dir)} \<and>
   (valid_name loc \<and> valid_name sub \<and> valid_name file_name \<and>
    (pre = [] \<or> last pre = slash) \<and> root_dir = pre @ loc @ [slash] @ sub \<longrightarrow>
      basename (dirname root_dir) = loc \<and>
      grandparent_name (path_join root_dir file_name) = Some loc) \<and>
   ((\<forall>n \<in> set nodes. valid_tree n) \<longrightarrow>
      (\<forall>t \<in> set (os_walk top_dir nodes).
         fst t = top_dir \<or> (\<exists>n. valid_name n \<and> fst t = path_join top_dir n) \<or>
         layout (fst t)))"
  using files_targets[of opts w root_dir files s] locale_of_layout[of loc sub pre]
    grandparent_of_layout[of loc sub file_name pre] os_walk_dirs(1)[of nodes top_dir]
  by blast

theorem target_locale_witness:
  "valid_name (ascii ''fr'') \<and> valid_name (ascii ''LC_MESSAGES'') \<and>
   valid_name (ascii ''django.po'') \<and> last (ascii ''locale/'') = slash \<and>
   ascii ''locale/fr/LC_MESSAGES'' =
     ascii ''locale/'' @ ascii ''fr'' @ [slash] @ ascii ''LC_MESSAGES'' \<and>
   basename (dirname (ascii ''locale/fr/LC_MESSAGES'')) = ascii ''fr'' \<and>
   grandparent_name (path_join (ascii ''locale/fr/LC_MESSAGES'') (ascii ''django.po''))
     = Some (ascii ''fr'')"
proof -
  have v: "valid_name (ascii ''fr'')" "valid_name (ascii ''LC_MESSAGES'')"
    "valid_name (ascii ''django.po'')"
    by (simp_all add: valid_name_def ascii_def slash_def)
  have l: "last (ascii ''locale/'') = slash" by (simp add: ascii_def slash_def)
  have e: "ascii ''locale/fr/LC_MESSAGES'' =
     ascii ''locale/'' @ ascii ''fr'' @ [slash] @ ascii ''LC_MESSAGES''"
    by (simp add: ascii_def slash_def)
  have "valid_name (ascii ''fr'') \<and> valid_name (ascii ''LC_MESSAGES'') \<and>
      valid_name (ascii ''django.po'') \<and>
      (ascii ''locale/'' = [] \<or> last (ascii ''locale/'') = slash) \<and>
      ascii ''locale/fr/LC_MESSAGES'' =
        ascii ''locale/'' @ ascii ''fr'' @ [slash] @ ascii ''LC_MESSAGES'' \<longrightarrow>
      basename (dirname (ascii ''locale/fr/LC_MESSAGES'')) = ascii ''fr'' \<and>
      grandparent_name (path_join (ascii ''locale/fr/LC_MESSAGES'') (ascii ''django.po''))
        = Some (ascii ''fr'')"
    using target_locale[where root_dir="ascii ''locale/fr/LC_MESSAGES''"
        and loc="ascii ''fr''" and sub="ascii ''LC_MESSAGES''"
        and file_name="ascii ''django.po''" and pre="ascii ''locale/''"
        and opts=demo_options and w=demo_world and files="[]" and s=demo_disk
        and nodes="[]" and top_dir="[]"]
    by blast
  then show ?thesis using v l e by blast
qed

section \<open>The translation cap\<close>

lemma effects_append: "effects (xs @ ys) = effects xs @ effects ys"
  by (simp add: effects_def)

lemma saves_append: "saves (xs @ ys) = saves xs + saves ys"
  by (simp add: saves_def)

lemma saves_effects: "effects evs = [] \<Longrightarrow> saves evs = 0"
  by (induction evs) (auto simp: effects_def saves_def is_save_def is_effect_def split: event.splits if_splits)

lemma stored_append: "stored (xs @ ys) = stored xs + stored ys"
  by (simp add: stored_def)

lemma reported_append: "reported (xs @ ys) = reported xs + reported ys"
  by (simp add: reported_def)

lemma written_append: "written (xs @ ys) d = written ys (written xs d)"
  by (induction xs arbitrary: d) simp_all

lemma stored_effects: "filter is_stored (effects evs) = filter is_stored evs"
  unfolding effects_def filter_filter
  by (rule filter_cong) (auto simp: is_stored_def is_effect_def split: event.splits)

lemma counted_run_refl: "counted_run L s [] s"
  by (simp add: counted_run_def saves_def effects_def)

lemma counted_run_seq:
  assumes a: "counted_run L s e1 s1" and b: "counted_run L s1 e2 s2"
  shows "counted_run L s (e1 @ e2) s2"
proof (cases "translated_count s < L")
  case False
  then have e1: "effects e1 = []" using a by (simp add: counted_run_def)
  then have "translated_count s1 = translated_count s"
    using a saves_effects[OF e1] by (simp add: counted_run_def)
  then have e2: "effects e2 = []" using b False by (simp add: counted_run_def)
  show ?thesis
    using a b False e1 e2 saves_effects[OF e1] saves_effects[OF e2]
    by (simp add: counted_run_def effects_append saves_append)
next
  case True
  show ?thesis
  proof (cases "translated_count s1 < L")
    case below: True
    then show ?thesis
      using a b True by (auto simp: counted_run_def effects_append saves_append)
  next
    case False
    then have e2: "effects e2 = []" using b by (simp add: counted_run_def)
    show ?thesis
      using a b True False e2 saves_effects[OF e2]
      by (auto simp: counted_run_def effects_append saves_append)
  qed
qed

lemma stored_run_refl: "stored_run w s [] s"
  by (simp add: stored_run_def stored_def reported_def saves_def)

lemma stored_run_seq:
  "stored_run w s e1 s1 \<Longrightarrow> stored_run w s1 e2 s2 \<Longrightarrow> stored_run w s (e1 @ e2) s2"
  by (simp add: stored_run_def written_append stored_append reported_append saves_append)

lemmas observed_defs =
  saves_def effects_def stored_def reported_def is_save_def is_effect_def is_stored_def
  is_report_def write_event_def

lemmas capped_defs = capped_run_def counted_run_def stored_run_def observed_defs

lemma capped_run_refl: "capped_run L w s [] s"
  by (simp add: capped_run_def counted_run_refl stored_run_refl)

lemma capped_run_log: "\<not> is_effect ev \<Longrightarrow> \<not> is_report ev \<Longrightarrow> capped_run L w s [ev] s"
  by (cases ev) (simp_all add: capped_defs)

lemma capped_run_seq:
  "capped_run L w s e1 s1 \<Longrightarrow> capped_run L w s1 e2 s2 \<Longrightarrow> capped_run L w s (e1 @ e2) s2"
  by (auto simp: capped_run_def intro: counted_run_seq stored_run_seq)

lemma capped_run_count: "capped_run L w s evs s' \<Longrightarrow> counted_run L s evs s'"
  by (simp add: capped_run_def)

lemma wait_capped:
  "wait_for_rate_limit opts w s = (evs, s1, f) \<Longrightarrow> translated_count s < L \<Longrightarrow>
   capped_run L w s evs s1"
  using wait_events[of opts w s evs s1 f] wait_frame[of opts w s evs s1 f]
  by (auto simp: capped_defs)

lemma try_capped:
  "try_translate opts w tgt path seen e es n s = (evs, e', s') \<Longrightarrow> translated_count s < L \<Longrightarrow>
   capped_run L w s evs s'"
  by (auto simp: try_translate_def Let_def capped_defs split: sum.splits option.splits)

lemma check_limit_active:
  "limit_translations opts = Some L \<Longrightarrow> L \<noteq> 0 \<Longrightarrow>
   check_limit opts s = (if L \<le> translated_count s then Some L else None)"
  by (simp add: check_limit_def)

lemma entries_capped:
  assumes lim: "limit_translations opts = Some L" "L \<noteq> 0"
  shows "case translate_entries opts w tgt path seen es s of
           (evs, s', f) \<Rightarrow> capped_run L w s evs s' \<and> (\<forall>x. f = Raise x \<longrightarrow> translated_count s' < L)"
proof (induction es arbitrary: seen s)
  case Nil
  then show ?case by (simp add: capped_run_refl)
next
  case (Cons e es)
  show ?case
  proof (cases "L \<le> translated_count s")
    case True
    then have "check_limit opts s = Some L" using lim by (simp add: check_limit_active)
    then show ?thesis
      by (simp add: translate_entries_hit capped_run_log is_effect_def is_report_def)
  next
    case False
    then have None: "check_limit opts s = None" using lim by (simp add: check_limit_active)
    show ?thesis
    proof (cases "selected opts e")
      case False
      then show ?thesis using None Cons.IH by (simp add: translate_entries_skip)
    next
      case True
      obtain evs s1 f where w: "wait_for_rate_limit opts w s = (evs, s1, f)"
        by (metis prod_cases3)
      obtain evs' e' s2 where
        t: "try_translate opts w tgt path seen e es (attempts s) s1 = (evs', e', s2)"
        by (metis prod_cases3)
      obtain evs3 s3 f3 where
        rec: "translate_entries opts w tgt path (seen @ [e']) es s2 = (evs3, s3, f3)"
        by (metis prod_cases3)
      have c1: "capped_run L w s evs s1" using wait_capped[OF w] False by simp
      have k1: "translated_count s1 = translated_count s" using wait_frame[OF w] by simp
      have c2: "capped_run L w s1 evs' s2" using try_capped[OF t] False k1 by simp
      have ih: "capped_run L w s2 evs3 s3 \<and> (\<forall>x. f3 = Raise x \<longrightarrow> translated_count s3 < L)"
        using Cons.IH[where seen="seen @ [e']" and s=s2] rec by simp
      have "capped_run L w s (evs @ evs' @ evs3) s3"
        using capped_run_seq[OF c1 capped_run_seq[OF c2]] ih by simp
      then show ?thesis
        using c1 k1 False ih rec
        by (cases f)
          (simp_all add: translate_entries_attempt[OF None True w t] after_def)
    qed
  qed
qed


lemma file_capped:
  assumes lim: "limit_translations opts = Some L" "L \<noteq> 0"
    and below: "translated_count s < L"
  shows "case translate_file opts w root_dir file_name tgt s of
           (evs, s', f) \<Rightarrow>
             capped_run L w s evs s' \<and> (\<forall>x. f = Raise x \<longrightarrow> translated_count s' < L)"
proof (cases "disk s (path_join root_dir file_name)")
  case None
  then show ?thesis
    using below
    by (simp add: translate_file_def Let_def capped_defs)
next
  case (Some po)
  obtain evs s' f where
    r: "translate_entries opts w tgt (path_join root_dir file_name) [] po s = (evs, s', f)"
    by (metis prod_cases3)
  have c: "capped_run L w s evs s' \<and> (\<forall>x. f = Raise x \<longrightarrow> translated_count s' < L)"
    using entries_capped[OF lim, where w=w and tgt=tgt and seen="[]" and s=s
        and path="path_join root_dir file_name" and es=po] r by simp
  have "capped_run L w s [Info_filling_up tgt, Load (path_join root_dir file_name)] s"
    using below
    by (simp add: capped_defs)
  then have "capped_run L w s
      ([Info_filling_up tgt, Load (path_join root_dir file_name)] @ evs) s'"
    using c by (blast intro: capped_run_seq)
  then show ?thesis using Some r c by (simp add: translate_file_def Let_def after_def)
qed

lemma files_capped:
  assumes lim: "limit_translations opts = Some L" "L \<noteq> 0"
  shows "case handle_files opts w root_dir files s of
           (evs, s', f) \<Rightarrow>
             capped_run L w s evs s' \<and> (\<forall>x. f = Raise x \<longrightarrow> translated_count s' < L)"
proof (induction files arbitrary: s)
  case Nil
  then show ?case by (simp add: capped_run_refl)
next
  case (Cons name names)
  show ?case
  proof (cases "L \<le> translated_count s")
    case True
    then have "check_limit opts s = Some L" using lim by (simp add: check_limit_active)
    then show ?thesis
      by (simp add: handle_files_hit capped_run_log is_effect_def is_report_def)
  next
    case False
    then have None: "check_limit opts s = None" using lim by (simp add: check_limit_active)
    show ?thesis
    proof (cases "is_po name")
      case False
      then show ?thesis using None Cons.IH by (simp add: handle_files_other)
    next
      case True
      show ?thesis
      proof (cases "locales opts = [] \<or> basename (dirname root_dir) \<in> set (locales opts)")
        case False
        obtain evs3 s3 f3 where rec: "handle_files opts w root_dir names s = (evs3, s3, f3)"
          by (metis prod_cases3)
        have ih: "capped_run L w s evs3 s3 \<and> (\<forall>x. f3 = Raise x \<longrightarrow> translated_count s3 < L)"
          using Cons.IH[of s] rec by simp
        have "capped_run L w s [Info_skipping_locale (basename (dirname root_dir))] s"
          by (simp add: capped_run_log is_effect_def is_report_def)
        then have
          "capped_run L w s ([Info_skipping_locale (basename (dirname root_dir))] @ evs3) s3"
          using ih by (blast intro: capped_run_seq)
        then show ?thesis
          using None True False ih rec by (simp add: handle_files_skip after_def)
      next
        case allowed: True
        obtain evs s1 f where
          t: "translate_file opts w root_dir name (basename (dirname root_dir)) s = (evs, s1, f)"
          by (metis prod_cases3)
        have c1: "capped_run L w s evs s1 \<and> (\<forall>x. f = Raise x \<longrightarrow> translated_count s1 < L)"
          using file_capped[OF lim, where w=w and root_dir=root_dir and file_name=name
              and tgt="basename (dirname root_dir)" and s=s] False t by simp
        obtain evs3 s3 f3 where rec: "handle_files opts w root_dir names s1 = (evs3, s3, f3)"
          by (metis prod_cases3)
        have ih: "capped_run L w s1 evs3 s3 \<and> (\<forall>x. f3 = Raise x \<longrightarrow> translated_count s3 < L)"
          using Cons.IH[of s1] rec by simp
        have c: "capped_run L w s (evs @ evs3) s3"
          using c1 ih by (blast intro: capped_run_seq)
        show ?thesis
          using c c1 ih rec
          by (cases f)
            (auto simp: handle_files_process[OF None True allowed t] after_def
              split: bool.splits)
      qed
    qed
  qed
qed

lemma walk_capped:
  assumes lim: "limit_translations opts = Some L" "L \<noteq> 0"
  shows "case handle_walk opts w triples s of
           (evs, s', f) \<Rightarrow>
             capped_run L w s evs s' \<and> (\<forall>x. f = Raise x \<longrightarrow> translated_count s' < L)"
proof (induction triples arbitrary: s)
  case Nil
  then show ?case by (simp add: capped_run_refl)
next
  case (Cons t triples)
  obtain root_dir dirs files where tr: "t = (root_dir, dirs, files)" by (metis prod_cases3)
  obtain evs s1 f where h: "handle_files opts w root_dir files s = (evs, s1, f)"
    by (metis prod_cases3)
  have c1: "capped_run L w s evs s1 \<and> (\<forall>x. f = Raise x \<longrightarrow> translated_count s1 < L)"
    using files_capped[OF lim, where w=w and root_dir=root_dir and files=files and s=s] h
    by simp
  obtain evs3 s3 f3 where rec: "handle_walk opts w triples s1 = (evs3, s3, f3)"
    by (metis prod_cases3)
  have ih: "capped_run L w s1 evs3 s3 \<and> (\<forall>x. f3 = Raise x \<longrightarrow> translated_count s3 < L)"
    using Cons.IH[of s1] rec by simp
  have c: "capped_run L w s (evs @ evs3) s3"
    using c1 ih by (blast intro: capped_run_seq)
  show ?case
    using c c1 ih rec h by (cases f) (simp_all add: tr after_def)
qed

lemma dirs_capped:
  assumes lim: "limit_translations opts = Some L" "L \<noteq> 0"
  shows "case handle_dirs opts w ds s of
           (evs, s', f) \<Rightarrow>
             capped_run L w s evs s' \<and> (\<forall>x. f = Raise x \<longrightarrow> translated_count s' < L)"
proof (induction ds arbitrary: s)
  case Nil
  then show ?case by (simp add: capped_run_refl)
next
  case (Cons d ds)
  show ?case
  proof (cases "L \<le> translated_count s")
    case True
    then have "check_limit opts s = Some L" using lim by (simp add: check_limit_active)
    then show ?thesis by (simp add: capped_run_log is_effect_def is_report_def)
  next
    case False
    then have None: "check_limit opts s = None" using lim by (simp add: check_limit_active)
    obtain evs s1 f where h: "handle_walk opts w (walk w d) s = (evs, s1, f)"
      by (metis prod_cases3)
    have c1: "capped_run L w s evs s1 \<and> (\<forall>x. f = Raise x \<longrightarrow> translated_count s1 < L)"
      using walk_capped[OF lim, where w=w and triples="walk w d" and s=s] h by simp
    obtain evs3 s3 f3 where rec: "handle_dirs opts w ds s1 = (evs3, s3, f3)"
      by (metis prod_cases3)
    have ih: "capped_run L w s1 evs3 s3 \<and> (\<forall>x. f3 = Raise x \<longrightarrow> translated_count s3 < L)"
      using Cons.IH[of s1] rec by simp
    have c: "capped_run L w s (evs @ evs3) s3"
      using c1 ih by (blast intro: capped_run_seq)
    show ?thesis
      using c c1 ih rec h None by (cases f) (simp_all add: after_def)
  qed
qed


lemma uncapped_simps [simp]:
  "check_limit (uncapped opts) s = None"
  "wait_for_rate_limit (uncapped opts) w s = wait_for_rate_limit opts w s"
  "try_translate (uncapped opts) w tgt path seen e es n s =
     try_translate opts w tgt path seen e es n s"
  "selected (uncapped opts) e = selected opts e"
  "locales (uncapped opts) = locales opts"
  by (simp_all add: uncapped_def check_limit_def wait_for_rate_limit_def try_translate_def
      selected_def)

lemma cut_of_same: "cut_of L r r"
  by (simp add: cut_of_def)

lemma cut_of_after: "cut_of L rL rU \<Longrightarrow> cut_of L (after evs rL) (after evs rU)"
  by (cases rL; cases rU) (auto simp: cut_of_def after_def effects_append)

lemma cut_of_cut:
  "effects (fst rL) = effects evsL \<Longrightarrow> prefix (effects evsL) (effects evsU) \<Longrightarrow>
   fst rU = evsU @ rest \<Longrightarrow> L \<le> translated_count (fst (snd rL)) \<Longrightarrow> cut_of L rL rU"
  by (auto simp: cut_of_def effects_append intro: prefix_order.trans)

lemma capped_run_mono: "capped_run L w s evs s' \<Longrightarrow> translated_count s \<le> translated_count s'"
  by (simp add: capped_run_def counted_run_def)

lemma entries_cut_of:
  assumes lim: "limit_translations opts = Some L" "L \<noteq> 0"
  shows "cut_of L (translate_entries opts w tgt path seen es s)
           (translate_entries (uncapped opts) w tgt path seen es s)"
proof (induction es arbitrary: seen s)
  case Nil
  then show ?case by (simp add: cut_of_same)
next
  case (Cons e es)
  show ?case
  proof (cases "L \<le> translated_count s")
    case True
    then have "check_limit opts s = Some L" using lim by (simp add: check_limit_active)
    then show ?thesis
      using True by (simp add: translate_entries_hit cut_of_def effects_def is_effect_def)
  next
    case False
    then have None: "check_limit opts s = None" using lim by (simp add: check_limit_active)
    have NoneU: "check_limit (uncapped opts) s = None" by simp
    show ?thesis
    proof (cases "selected opts e")
      case False
      then have "\<not> selected (uncapped opts) e" by simp
      then show ?thesis
        using False None Cons.IH
        by (simp add: translate_entries_skip[OF None False] translate_entries_skip[OF NoneU])
    next
      case True
      then have TrueU: "selected (uncapped opts) e" by simp
      obtain evs s1 f where w: "wait_for_rate_limit opts w s = (evs, s1, f)"
        by (metis prod_cases3)
      obtain evs' e' s2 where
        t: "try_translate opts w tgt path seen e es (attempts s) s1 = (evs', e', s2)"
        by (metis prod_cases3)
      have wU: "wait_for_rate_limit (uncapped opts) w s = (evs, s1, f)" using w by simp
      have tU: "try_translate (uncapped opts) w tgt path seen e es (attempts s) s1 =
          (evs', e', s2)"
        using t by simp
      show ?thesis
        using Cons.IH[where seen="seen @ [e']" and s=s2]
        by (cases f)
          (simp_all add: translate_entries_attempt[OF None True w t]
            translate_entries_attempt[OF NoneU TrueU wU tU] cut_of_after cut_of_same)
    qed
  qed
qed

lemma file_cut_of:
  assumes lim: "limit_translations opts = Some L" "L \<noteq> 0"
  shows "cut_of L (translate_file opts w root_dir file_name tgt s)
           (translate_file (uncapped opts) w root_dir file_name tgt s)"
  using entries_cut_of[OF lim]
  by (auto simp: translate_file_def Let_def cut_of_after cut_of_same split: option.splits)


lemma process_events:
  assumes "check_limit opts s = None" and "is_po name"
    and "locales opts = [] \<or> basename (dirname root_dir) \<in> set (locales opts)"
    and "translate_file opts w root_dir name (basename (dirname root_dir)) s = (evs, s1, f)"
  shows "\<exists>rest. fst (handle_files opts w root_dir (name # names) s) = evs @ rest"
  by (cases f)
    (auto simp: handle_files_process[OF assms] after_def split: bool.splits prod.splits)

lemma process_stopped:
  assumes lim: "limit_translations opts = Some L" "L \<noteq> 0"
    and "check_limit opts s = None" and "is_po name"
    and "locales opts = [] \<or> basename (dirname root_dir) \<in> set (locales opts)"
    and t: "translate_file opts w root_dir name (basename (dirname root_dir)) s = (evs, s1, f)"
    and full: "L \<le> translated_count s1"
  shows "effects (fst (handle_files opts w root_dir (name # names) s)) = effects evs \<and>
         L \<le> translated_count (fst (snd (handle_files opts w root_dir (name # names) s)))"
proof -
  obtain evs3 s3 f3 where rec: "handle_files opts w root_dir names s1 = (evs3, s3, f3)"
    by (metis prod_cases3)
  have c: "capped_run L w s1 evs3 s3"
    using files_capped[OF lim, where w=w and root_dir=root_dir and files=names and s=s1] rec
    by simp
  have "effects evs3 = []" "L \<le> translated_count s3"
    using c full by (auto simp: capped_run_def counted_run_def)
  then show ?thesis
    using full rec
    by (cases f)
      (auto simp: handle_files_process[OF assms(3,4,5) t] after_def effects_append
        split: bool.splits)
qed

lemma files_cut_of:
  assumes lim: "limit_translations opts = Some L" "L \<noteq> 0"
  shows "cut_of L (handle_files opts w root_dir files s)
           (handle_files (uncapped opts) w root_dir files s)"
proof (induction files arbitrary: s)
  case Nil
  then show ?case by (simp add: cut_of_same)
next
  case (Cons name names)
  show ?case
  proof (cases "L \<le> translated_count s")
    case True
    then have "check_limit opts s = Some L" using lim by (simp add: check_limit_active)
    then show ?thesis
      using True by (simp add: handle_files_hit cut_of_def effects_def is_effect_def)
  next
    case False
    then have None: "check_limit opts s = None" using lim by (simp add: check_limit_active)
    have NoneU: "check_limit (uncapped opts) s = None" by simp
    show ?thesis
    proof (cases "is_po name")
      case False
      then show ?thesis
        using Cons.IH
        by (simp add: handle_files_other[OF None False] handle_files_other[OF NoneU False])
    next
      case True
      show ?thesis
      proof (cases "locales opts = [] \<or> basename (dirname root_dir) \<in> set (locales opts)")
        case False
        then have n: "locales opts \<noteq> []" "basename (dirname root_dir) \<notin> set (locales opts)"
          by auto
        have nU: "locales (uncapped opts) \<noteq> []"
          "basename (dirname root_dir) \<notin> set (locales (uncapped opts))"
          using n by simp_all
        show ?thesis
          using Cons.IH
          by (simp add: handle_files_skip[OF None True n] handle_files_skip[OF NoneU True nU]
              cut_of_after)
      next
        case allowed: True
        then have allowedU: "locales (uncapped opts) = [] \<or>
            basename (dirname root_dir) \<in> set (locales (uncapped opts))"
          by simp
        obtain evsL sL fL where
          tL: "translate_file opts w root_dir name (basename (dirname root_dir)) s =
            (evsL, sL, fL)"
          by (metis prod_cases3)
        obtain evsU sU fU where
          tU: "translate_file (uncapped opts) w root_dir name (basename (dirname root_dir)) s =
            (evsU, sU, fU)"
          by (metis prod_cases3)
        have c: "cut_of L (evsL, sL, fL) (evsU, sU, fU)"
          using file_cut_of[OF lim, where w=w and root_dir=root_dir and file_name=name
              and tgt="basename (dirname root_dir)" and s=s] tL tU by simp
        show ?thesis
        proof (cases "translated_count sL < L")
          case True
          then have same: "evsU = evsL" "sU = sL" "fU = fL" using c by (auto simp: cut_of_def)
          show ?thesis
            using Cons.IH[of sL]
            by (cases fL)
              (auto simp: handle_files_process[OF None \<open>is_po name\<close> allowed tL]
                handle_files_process[OF NoneU \<open>is_po name\<close> allowedU tU[unfolded same]]
                cut_of_after cut_of_same split: bool.splits)
        next
          case False
          then have full: "L \<le> translated_count sL" by simp
          obtain rest where
            u: "fst (handle_files (uncapped opts) w root_dir (name # names) s) = evsU @ rest"
            using process_events[OF NoneU \<open>is_po name\<close> allowedU tU] by blast
          have p: "prefix (effects evsL) (effects evsU)" using c by (simp add: cut_of_def)
          show ?thesis
            using process_stopped[OF lim None \<open>is_po name\<close> allowed tL full, of names] p u
            by (blast intro: cut_of_cut)
        qed
      qed
    qed
  qed
qed

lemma walk_cut_of:
  assumes lim: "limit_translations opts = Some L" "L \<noteq> 0"
  shows "cut_of L (handle_walk opts w triples s) (handle_walk (uncapped opts) w triples s)"
proof (induction triples arbitrary: s)
  case Nil
  then show ?case by (simp add: cut_of_same)
next
  case (Cons t triples)
  obtain root_dir dirs files where tr: "t = (root_dir, dirs, files)" by (metis prod_cases3)
  obtain evsL sL fL where hL: "handle_files opts w root_dir files s = (evsL, sL, fL)"
    by (metis prod_cases3)
  obtain evsU sU fU where hU: "handle_files (uncapped opts) w root_dir files s = (evsU, sU, fU)"
    by (metis prod_cases3)
  have c: "cut_of L (evsL, sL, fL) (evsU, sU, fU)"
    using files_cut_of[OF lim, where w=w and root_dir=root_dir and files=files and s=s] hL hU
    by simp
  show ?case
  proof (cases "translated_count sL < L")
    case True
    then have same: "evsU = evsL" "sU = sL" "fU = fL" using c by (auto simp: cut_of_def)
    show ?thesis
      using Cons.IH[of sL] hL hU
      by (cases fL) (simp_all add: tr same cut_of_after cut_of_same)
  next
    case False
    then have full: "L \<le> translated_count sL" by simp
    obtain evs3 s3 f3 where rec: "handle_walk opts w triples sL = (evs3, s3, f3)"
      by (metis prod_cases3)
    have "capped_run L w sL evs3 s3"
      using walk_capped[OF lim, where w=w and triples=triples and s=sL] rec by simp
    then have r: "effects evs3 = []" "L \<le> translated_count s3"
      using full by (auto simp: capped_run_def counted_run_def)
    have l: "effects (fst (handle_walk opts w (t # triples) s)) = effects evsL \<and>
        L \<le> translated_count (fst (snd (handle_walk opts w (t # triples) s)))"
      using hL rec r full by (cases fL) (simp_all add: tr after_def effects_append)
    have u: "\<exists>rest. fst (handle_walk (uncapped opts) w (t # triples) s) = evsU @ rest"
      using hU by (cases fU) (auto simp: tr after_def split: prod.splits)
    have p: "prefix (effects evsL) (effects evsU)" using c by (simp add: cut_of_def)
    show ?thesis using l u p by (blast intro: cut_of_cut)
  qed
qed

lemma dirs_cut_of:
  assumes lim: "limit_translations opts = Some L" "L \<noteq> 0"
  shows "cut_of L (handle_dirs opts w ds s) (handle_dirs (uncapped opts) w ds s)"
proof (induction ds arbitrary: s)
  case Nil
  then show ?case by (simp add: cut_of_same)
next
  case (Cons d ds)
  show ?case
  proof (cases "L \<le> translated_count s")
    case True
    then have "check_limit opts s = Some L" using lim by (simp add: check_limit_active)
    then show ?thesis
      using True by (simp add: cut_of_def effects_def is_effect_def)
  next
    case False
    then have None: "check_limit opts s = None" using lim by (simp add: check_limit_active)
    obtain evsL sL fL where hL: "handle_walk opts w (walk w d) s = (evsL, sL, fL)"
      by (metis prod_cases3)
    obtain evsU sU fU where
      hU: "handle_walk (uncapped opts) w (walk w d) s = (evsU, sU, fU)"
      by (metis prod_cases3)
    have c: "cut_of L (evsL, sL, fL) (evsU, sU, fU)"
      using walk_cut_of[OF lim, where w=w and triples="walk w d" and s=s] hL hU by simp
    show ?thesis
    proof (cases "translated_count sL < L")
      case True
      then have same: "evsU = evsL" "sU = sL" "fU = fL" using c by (auto simp: cut_of_def)
      show ?thesis
        using Cons.IH[of sL] hL hU None
        by (cases fL) (simp_all add: same cut_of_after cut_of_same)
    next
      case False
      then have full: "L \<le> translated_count sL" by simp
      obtain evs3 s3 f3 where rec: "handle_dirs opts w ds sL = (evs3, s3, f3)"
        by (metis prod_cases3)
      have "capped_run L w sL evs3 s3"
        using dirs_capped[OF lim, where w=w and ds=ds and s=sL] rec by simp
      then have r: "effects evs3 = []" "L \<le> translated_count s3"
        using full by (auto simp: capped_run_def counted_run_def)
      have l: "effects (fst (handle_dirs opts w (d # ds) s)) = effects evsL \<and>
          L \<le> translated_count (fst (snd (handle_dirs opts w (d # ds) s)))"
        using hL rec r full None by (cases fL) (simp_all add: after_def effects_append)
      have u: "\<exists>rest. fst (handle_dirs (uncapped opts) w (d # ds) s) = evsU @ rest"
        using hU by (cases fU) (auto simp: after_def split: prod.splits)
      have p: "prefix (effects evsL) (effects evsU)" using c by (simp add: cut_of_def)
      show ?thesis using l u p by (blast intro: cut_of_cut)
    qed
  qed
qed

lemma handle_valid:
  assumes "use_i18n w" and "locale_paths w \<noteq> []"
    and "handle_dirs opts w (locale_paths w) (set_options s) = (evs, s', f)"
  shows "\<exists>logs. handle opts w s =
           (logs @ evs, s', case f of Continue \<Rightarrow> Return () | r \<Rightarrow> r) \<and>
           effects logs = [] \<and> saves logs = 0 \<and> stored logs = 0 \<and> reported logs = 0 \<and>
           (\<forall>d. written logs d = d)"
  using assms
  by (cases f; cases "limit_translations opts")
    (auto simp: handle_def Let_def after_def observed_defs)

lemma handle_invalid:
  "\<not> (use_i18n w \<and> locale_paths w \<noteq> []) \<Longrightarrow>
     translated_count (fst (snd (handle opts w s))) = 0"
  by (auto simp: handle_def Let_def set_options_def)

lemma demo_uncapped_count:
  "translated_count (fst (snd (handle (uncapped (demo_options\<lparr>limit_translations := l\<rparr>))
     demo_world demo_disk))) = 2"
  by (simp add: run_defs uncapped_def handle_files.simps)

text \<open>
  Claim C1 speaks of every cap \<open>L \<ge> 0\<close>, and of \<open>L\<close> successful translations whose catalogs
  are saved. A cap of 0 fails the test \<^verbatim>\<open>self.limit_translations and ...\<close> and so counts as
  no cap: on the small installation the run without cap makes two translations, and so does
  the run with a cap of 0. And the counter is incremented before \<^verbatim>\<open>po.save()\<close> is called:
  where the catalog cannot be written and the run without cap counts three translations,
  the run with a cap of 1 stops with the counter at 1, having stored nothing and left the disk
  as it was.
\<close>

theorem translation_cap_counterexample:
  "translated_count (fst (snd (handle (uncapped (demo_options\<lparr>limit_translations := Some 0\<rparr>))
     demo_world demo_disk))) = 2 \<and>
   translated_count (fst (snd (handle (demo_options\<lparr>limit_translations := Some 0\<rparr>)
     demo_world demo_disk))) = 2 \<and>
   translated_count (fst (snd (handle (uncapped (demo_options\<lparr>limit_translations := Some 1\<rparr>))
     readonly_world demo_disk))) = 3 \<and>
   translated_count (fst (snd (handle (demo_options\<lparr>limit_translations := Some 1\<rparr>)
     readonly_world demo_disk))) = 1 \<and>
   stored (fst (handle (demo_options\<lparr>limit_translations := Some 1\<rparr>)
     readonly_world demo_disk)) = 0 \<and>
   reported (fst (handle (demo_options\<lparr>limit_translations := Some 1\<rparr>)
     readonly_world demo_disk)) = 0 \<and>
   disk (fst (snd (handle (demo_options\<lparr>limit_translations := Some 1\<rparr>)
     readonly_world demo_disk))) = disk demo_disk"
  by (simp add: run_defs uncapped_def handle_files.simps readonly_world_def stored_def
      reported_def is_stored_def is_report_def)

text \<open>
  Claim C1, amended. Let the cap be \<open>L \<ge> 1\<close> and let the run without cap make more than \<open>L\<close>
  translations. Then the run with the cap makes exactly \<open>L\<close>: it returns normally with the
  counter at \<open>L\<close> after \<open>L\<close> calls of \<^verbatim>\<open>po.save()\<close>, its last external action is the save of
  the \<open>L\<close>-th translation (after it no entry is attempted and no catalog is loaded or saved,
  in this file, in later files or in later roots), and its external actions are an initial
  part of those of the run without cap, as are the catalogs it writes. The catalogs on
  disk at the end are those of the start overwritten by the successful saves of the run, in
  order, and each successful save is reported in the log as a translation. Where
  \<^verbatim>\<open>po.save()\<close> never raises, all \<open>L\<close> saves are successful: exactly \<open>L\<close> translations are
  stored and reported, and the catalogs saved are those holding the first \<open>L\<close> translations.
\<close>

theorem translation_cap:
  assumes lim: "limit_translations opts = Some L" and pos: "1 \<le> L"
    and more: "L < translated_count (fst (snd (handle (uncapped opts) w s)))"
  shows "case handle opts w s of
           (evs, s', f) \<Rightarrow>
             translated_count s' = L \<and> f = Return () \<and> int (saves evs) = L \<and>
             effects evs \<noteq> [] \<and> is_save (last (effects evs)) \<and>
             prefix (effects evs) (effects (fst (handle (uncapped opts) w s))) \<and>
             prefix (filter is_stored evs)
               (filter is_stored (fst (handle (uncapped opts) w s))) \<and>
             disk s' = written evs (disk s) \<and> reported evs = stored evs \<and>
             ((\<forall>n. save_error w n = None) \<longrightarrow>
                int (stored evs) = L \<and> int (reported evs) = L)"
proof -
  have nz: "L \<noteq> 0" using pos by simp
  have valid: "use_i18n w" "locale_paths w \<noteq> []"
    using more pos handle_invalid[of w "uncapped opts" s] by auto
  let ?s0 = "set_options s"
  obtain evsL sL fL where dL: "handle_dirs opts w (locale_paths w) ?s0 = (evsL, sL, fL)"
    by (metis prod_cases3)
  obtain evsU sU fU where
    dU: "handle_dirs (uncapped opts) w (locale_paths w) ?s0 = (evsU, sU, fU)"
    by (metis prod_cases3)
  obtain logsL where hL: "handle opts w s =
      (logsL @ evsL, sL, case fL of Continue \<Rightarrow> Return () | r \<Rightarrow> r)"
    and lL: "effects logsL = []" "saves logsL = 0" "stored logsL = 0" "reported logsL = 0"
      "\<forall>d. written logsL d = d"
    using handle_valid[OF valid dL] by blast
  obtain logsU where hU: "handle (uncapped opts) w s =
      (logsU @ evsU, sU, case fU of Continue \<Rightarrow> Return () | r \<Rightarrow> r)"
    and lU: "effects logsU = []"
    using handle_valid[OF valid dU] by blast
  have zero: "translated_count ?s0 = 0" by (simp add: set_options_def)
  have same_disk: "disk ?s0 = disk s" by (simp add: set_options_def)
  have run: "capped_run L w ?s0 evsL sL"
    and rb: "\<forall>x. fL = Raise x \<longrightarrow> translated_count sL < L"
    using dirs_capped[OF lim nz, where w=w and ds="locale_paths w" and s="?s0"] dL by auto
  have cap: "counted_run L ?s0 evsL sL" and sto: "stored_run w ?s0 evsL sL"
    using run by (simp_all add: capped_run_def)
  have cut: "cut_of L (evsL, sL, fL) (evsU, sU, fU)"
    using dirs_cut_of[OF lim nz, where w=w and ds="locale_paths w" and s="?s0"] dL dU by simp
  have le: "translated_count sL \<le> L" using cap zero pos by (simp add: counted_run_def)
  have cnt: "translated_count sL = L"
  proof (rule ccontr)
    assume "translated_count sL \<noteq> L"
    then have "translated_count sL < L" using le by simp
    then have "sU = sL" using cut by (auto simp: cut_of_def)
    then show False using more hU \<open>translated_count sL < L\<close> by simp
  qed
  have sv: "int (saves evsL) = L" using cap zero cnt by (simp add: counted_run_def)
  have ef: "effects evsL \<noteq> []" "is_save (last (effects evsL))"
    using cap zero cnt pos by (auto simp: counted_run_def)
  have fl: "(case fL of Continue \<Rightarrow> Return () | r \<Rightarrow> r) = Return ()"
    using rb cnt by (cases fL) auto
  have pre: "prefix (effects evsL) (effects evsU)" using cut by (simp add: cut_of_def)
  then have "prefix (effects (logsL @ evsL)) (effects (logsU @ evsU))"
    using lL lU by (simp add: effects_append)
  then have "prefix (filter is_stored (effects (logsL @ evsL)))
      (filter is_stored (effects (logsU @ evsU)))"
    by (rule filter_mono_prefix)
  then have pst: "prefix (filter is_stored (logsL @ evsL)) (filter is_stored (logsU @ evsU))"
    by (simp only: stored_effects)
  have dk: "disk sL = written evsL (disk s)"
    using sto same_disk by (simp add: stored_run_def)
  have rp: "reported evsL = stored evsL" using sto by (simp add: stored_run_def)
  have "stored evsL = saves evsL" if "\<forall>n. save_error w n = None"
    using sto that by (simp add: stored_run_def)
  then have all: "(\<forall>n. save_error w n = None) \<longrightarrow>
      int (stored evsL) = L \<and> int (reported evsL) = L"
    using sv rp by simp
  show ?thesis
    using cnt sv ef fl pre pst lL lU dk rp all
    by (simp add: hL hU effects_append saves_append stored_append reported_append
        written_append)
qed

theorem translation_cap_witness:
  "limit_translations (demo_options\<lparr>limit_translations := Some 1\<rparr>) = Some 1 \<and>
   1 < translated_count (fst (snd (handle
         (uncapped (demo_options\<lparr>limit_translations := Some 1\<rparr>)) demo_world demo_disk))) \<and>
   (\<forall>n. save_error demo_world n = None) \<and>
   (case handle (demo_options\<lparr>limit_translations := Some 1\<rparr>) demo_world demo_disk of
      (evs, s', f) \<Rightarrow>
        translated_count s' = 1 \<and> f = Return () \<and> int (saves evs) = 1 \<and>
        effects evs \<noteq> [] \<and> is_save (last (effects evs)) \<and>
        prefix (effects evs)
          (effects (fst (handle (uncapped (demo_options\<lparr>limit_translations := Some 1\<rparr>))
             demo_world demo_disk))) \<and>
        prefix (filter is_stored evs)
          (filter is_stored
             (fst (handle (uncapped (demo_options\<lparr>limit_translations := Some 1\<rparr>))
                demo_world demo_disk))) \<and>
        disk s' = written evs (disk demo_disk) \<and> reported evs = stored evs \<and>
        int (stored evs) = 1 \<and> int (reported evs) = 1)"
proof -
  let ?o = "demo_options\<lparr>limit_translations := Some 1\<rparr>"
  have h1: "limit_translations ?o = Some 1" by simp
  have h2: "(1::int) \<le> 1" by simp
  have h3: "1 < translated_count (fst (snd (handle (uncapped ?o) demo_world demo_disk)))"
    by (simp add: demo_uncapped_count)
  have h4: "\<forall>n. save_error demo_world n = None" by (simp add: demo_world_def)
  obtain evs s' f where r: "handle ?o demo_world demo_disk = (evs, s', f)"
    by (metis prod_cases3)
  show ?thesis
    using h1 h3 h4 translation_cap[OF h1 h2 h3] by (simp add: r)
qed

text \<open>
  On the small installation a cap of 1 leaves the catalog on disk with its first entry
  translated and flagged, and the other entries as they were.
\<close>

lemma demo_capped_disk:
  "disk (fst (snd (handle (demo_options\<lparr>limit_translations := Some 1\<rparr>) demo_world demo_disk)))
     demo_path =
   Some (\<lparr>msgid = ascii ''Hello'', msgstr = ascii ''frHello'', flags = [fuzzy]\<rparr>
           # tl demo_catalog)"
  by (simp add: run_defs handle_files.simps)

end
